theory Spec2Isabelle
  imports Main
begin

section \<open>Errors\<close>

text \<open>
  \<^verbatim>\<open>APIError\<close> of \<^verbatim>\<open>client.go\<close>: the error body of the API, with the HTTP status
  attached by \<^verbatim>\<open>get\<close>.
\<close>

record APIError =
  StatusCode :: int
  Details :: string
  Type :: string
  Warnings :: "string list"

text \<open>
  Go has one \<^verbatim>\<open>error\<close> interface. Its values, as far as this package makes or meets
  them: the two sentinels of \<^verbatim>\<open>io\<close>, the syntax error of \<^verbatim>\<open>encoding/json\<close> (the
  offending byte, when there is one, and the rest of the message), an error that is
  only a text (\<^verbatim>\<open>fmt.Errorf\<close> without \<^verbatim>\<open>%w\<close>, and every error made outside this
  package: by the transport, by the limiter, by a callback), an error that wraps
  another one (\<^verbatim>\<open>fmt.Errorf("...: %w", err)\<close>: the text before the wrapped error, and the
  wrapped error), and \<^verbatim>\<open>*APIError\<close>.
\<close>

datatype error =
    EOF
  | ErrUnexpectedEOF
  | SyntaxError "char option" string
  | ErrorString string
  | WrapError string error
  | APIErr APIError

text \<open>The verb \<^verbatim>\<open>%d\<close> of \<^verbatim>\<open>fmt\<close>: an integer in decimal.\<close>

fun itoa_nat :: "nat \<Rightarrow> string" where
  "itoa_nat n =
     (if n < 10 then [''0123456789'' ! n]
      else itoa_nat (n div 10) @ [''0123456789'' ! (n mod 10)])"

definition itoa :: "int \<Rightarrow> string" where
  "itoa i = (if i < 0 then CHR ''-'' # itoa_nat (nat (- i)) else itoa_nat (nat i))"

text \<open>\<^verbatim>\<open>(*APIError).Error\<close>; the receiver may be nil.\<close>

definition APIError_Error :: "APIError option \<Rightarrow> string" where
  "APIError_Error e =
     (case e of
        None \<Rightarrow> ''scryfall api error''
      | Some a \<Rightarrow>
          if Details a \<noteq> ''''
          then ''scryfall api error ('' @ itoa (StatusCode a) @ ''): '' @ Details a
          else ''scryfall api error ('' @ itoa (StatusCode a) @ '')'')"

section \<open>Callbacks and the record of their invocations\<close>

text \<open>
  The callbacks are closures: they read and write variables of the caller. The model
  passes these variables (\<open>vars\<close>) through every function that may run a callback, and
  keeps beside them the list of the invocations made so far (\<open>calls\<close>), oldest first:
  a progress call with its two arguments, a record call with the record and what the
  callback returned.
\<close>

datatype 'c event =
    OnReadCall int int
  | CardCall 'c "error option"

record ('s, 'c) caller =
  vars :: 's
  calls :: "'c event list"

type_synonym 's ProgressFunc = "int \<Rightarrow> int \<Rightarrow> 's \<Rightarrow> 's"

type_synonym ('s, 'c) cardCallback = "'c \<Rightarrow> 's \<Rightarrow> error option \<times> 's"

definition call_OnRead ::
  "'s ProgressFunc \<Rightarrow> int \<Rightarrow> int \<Rightarrow> ('s, 'c) caller \<Rightarrow> ('s, 'c) caller" where
  "call_OnRead f current tot st =
     st\<lparr>vars := f current tot (vars st), calls := calls st @ [OnReadCall current tot]\<rparr>"

definition call_cardCallback ::
  "('s, 'c) cardCallback \<Rightarrow> 'c \<Rightarrow> ('s, 'c) caller \<Rightarrow> error option \<times> ('s, 'c) caller" where
  "call_cardCallback cb c st =
     (case cb c (vars st) of
        (e, s') \<Rightarrow> (e, st\<lparr>vars := s', calls := calls st @ [CardCall c e]\<rparr>))"

text \<open>The records delivered so far, and the running totals reported so far.\<close>

fun card_calls :: "'c event list \<Rightarrow> ('c \<times> error option) list" where
  "card_calls [] = []"
| "card_calls (CardCall c e # es) = (c, e) # card_calls es"
| "card_calls (OnReadCall a b # es) = card_calls es"

fun progress_calls :: "'c event list \<Rightarrow> (int \<times> int) list" where
  "progress_calls [] = []"
| "progress_calls (OnReadCall a b # es) = (a, b) # progress_calls es"
| "progress_calls (CardCall c e # es) = progress_calls es"

section \<open>Byte streams and the progress-observing reader\<close>

text \<open>
  An \<^verbatim>\<open>io.ReadCloser\<close> such as a response body is given by what its coming \<^verbatim>\<open>Read\<close>
  calls return, in order: the bytes put into the caller's buffer and the error
  (\<open>None\<close> is \<^verbatim>\<open>nil\<close>). Once the list is used up, \<^verbatim>\<open>Read\<close> returns no bytes and
  \<^verbatim>\<open>io.EOF\<close>.
\<close>

type_synonym read_result = "string \<times> error option"

type_synonym body = "read_result list"

definition body_Read :: "body \<Rightarrow> read_result \<times> body" where
  "body_Read b = (case b of [] \<Rightarrow> (([], Some EOF), []) | res # b' \<Rightarrow> (res, b'))"

text \<open>\<^verbatim>\<open>int64\<close> arithmetic wraps around.\<close>

definition int64 :: "int \<Rightarrow> int" where
  "int64 x = (x + 2 ^ 63) mod 2 ^ 64 - 2 ^ 63"

record 's progressReader =
  ReadCloser :: body
  Total :: int
  Current :: int
  OnRead :: "'s ProgressFunc option"

text \<open>
  \<^verbatim>\<open>
  func (r *progressReader) Read(p []byte) (int, error) {
      n, err := r.ReadCloser.Read(p)
      r.Current += int64(n)
      if r.OnRead != nil {
          r.OnRead(r.Current, r.Total)
      }
      return n, err
  }
  \<close>
\<close>

definition progressReader_Read ::
  "'s progressReader \<Rightarrow> ('s, 'c) caller \<Rightarrow> read_result \<times> 's progressReader \<times> ('s, 'c) caller" where
  "progressReader_Read r st =
     (case body_Read (ReadCloser r) of
        ((p, err), b') \<Rightarrow>
          let r' = r\<lparr>ReadCloser := b', Current := int64 (Current r + int (length p))\<rparr>;
              st' = (case OnRead r' of
                       None \<Rightarrow> st
                     | Some f \<Rightarrow> call_OnRead f (Current r') (Total r') st)
          in ((p, err), r', st'))"

text \<open>
  The \<^verbatim>\<open>io.Reader\<close> handed to the decoder or to \<^verbatim>\<open>io.Copy\<close>: the response body
  itself, or a \<^verbatim>\<open>*progressReader\<close> around it.
\<close>

datatype 's reader = BodyReader body | ProgressReader "'s progressReader"

definition Read ::
  "'s reader \<Rightarrow> ('s, 'c) caller \<Rightarrow> read_result \<times> 's reader \<times> ('s, 'c) caller" where
  "Read rd st =
     (case rd of
        BodyReader b \<Rightarrow> (case body_Read b of (res, b') \<Rightarrow> (res, BodyReader b', st))
      | ProgressReader r \<Rightarrow>
          (case progressReader_Read r st of (res, r', st') \<Rightarrow> (res, ProgressReader r', st')))"

text \<open>What the underlying stream has not yet returned.\<close>

definition pending :: "'s reader \<Rightarrow> body" where
  "pending rd = (case rd of BodyReader b \<Rightarrow> b | ProgressReader r \<Rightarrow> ReadCloser r)"

section \<open>The scanner of \<^verbatim>\<open>encoding/json\<close>\<close>

text \<open>
  \<^verbatim>\<open>ProcessBulkDataStream\<close> drives a \<^verbatim>\<open>json.Decoder\<close> of the Go standard library.
  The library is modelled as far as the decoder's control flow depends on it: the
  scanner (\<^verbatim>\<open>scanner.go\<close>), a state machine fed one byte at a time, and the token
  interface of the decoder (\<^verbatim>\<open>stream.go\<close>), as they are in the package
  \<^verbatim>\<open>encoding/json\<close> itself (not the \<^verbatim>\<open>encoding/json/v2\<close> implementation, whose
  syntax errors may name another byte). The step functions keep their Go names;
  \<open>stepfn\<close> names the function held in \<^verbatim>\<open>scanner.step\<close>. Byte offsets, which only
  appear in error messages, are left out. The top of the parse stack is the head of
  the list.
\<close>

definition isSpace :: "char \<Rightarrow> bool" where
  "isSpace c \<longleftrightarrow> c = CHR '' '' \<or> c = CHR 0x09 \<or> c = CHR 0x0D \<or> c = CHR 0x0A"

datatype opcode =
    scanContinue | scanBeginLiteral | scanBeginObject | scanObjectKey | scanObjectValue
  | scanEndObject | scanBeginArray | scanArrayValue | scanEndArray | scanSkipSpace
  | scanEnd | scanError

datatype pstate = parseObjectKey | parseObjectValue | parseArrayValue

datatype stepfn =
    StateBeginValueOrEmpty | StateBeginValue | StateBeginStringOrEmpty | StateBeginString
  | StateEndValue | StateEndTop | StateInString | StateInStringEsc
  | StateInStringEscU | StateInStringEscU1 | StateInStringEscU12 | StateInStringEscU123
  | StateNeg | State1 | State0 | StateDot | StateDot0 | StateE | StateESign | StateE0
  | StateT | StateTr | StateTru | StateF | StateFa | StateFal | StateFals
  | StateN | StateNu | StateNul | StateError

record scanner =
  step :: stepfn
  endTop :: bool
  parseState :: "pstate list"
  err :: "error option"

definition maxNestingDepth :: nat where
  "maxNestingDepth = 10000"

definition scanner_reset :: scanner where
  "scanner_reset = \<lparr>step = StateBeginValue, endTop = False, parseState = [], err = None\<rparr>"

definition scanner_error :: "scanner \<Rightarrow> char \<Rightarrow> string \<Rightarrow> opcode \<times> scanner" where
  "scanner_error s c context_msg =
     (scanError, s\<lparr>step := StateError, err := Some (SyntaxError (Some c) context_msg)\<rparr>)"

definition pushParseState :: "scanner \<Rightarrow> char \<Rightarrow> pstate \<Rightarrow> opcode \<Rightarrow> opcode \<times> scanner" where
  "pushParseState s c newParseState successState =
     (let s' = s\<lparr>parseState := newParseState # parseState s\<rparr>
      in if length (parseState s') \<le> maxNestingDepth then (successState, s')
         else scanner_error s' c ''exceeded max depth'')"

definition popParseState :: "scanner \<Rightarrow> scanner" where
  "popParseState s =
     (let ps = tl (parseState s)
      in if ps = [] then s\<lparr>parseState := ps, step := StateEndTop, endTop := True\<rparr>
         else s\<lparr>parseState := ps, step := StateEndValue\<rparr>)"

definition stateEndTop :: "scanner \<Rightarrow> char \<Rightarrow> opcode \<times> scanner" where
  "stateEndTop s c =
     (if \<not> isSpace c then (scanEnd, snd (scanner_error s c ''after top-level value''))
      else (scanEnd, s))"

definition stateEndValue :: "scanner \<Rightarrow> char \<Rightarrow> opcode \<times> scanner" where
  "stateEndValue s c =
     (case parseState s of
        [] \<Rightarrow> stateEndTop (s\<lparr>step := StateEndTop, endTop := True\<rparr>) c
      | ps # below \<Rightarrow>
          if isSpace c then (scanSkipSpace, s\<lparr>step := StateEndValue\<rparr>)
          else (case ps of
                  parseObjectKey \<Rightarrow>
                    if c = CHR '':''
                    then (scanObjectKey,
                          s\<lparr>parseState := parseObjectValue # below, step := StateBeginValue\<rparr>)
                    else scanner_error s c ''after object key''
                | parseObjectValue \<Rightarrow>
                    if c = CHR '',''
                    then (scanObjectValue,
                          s\<lparr>parseState := parseObjectKey # below, step := StateBeginString\<rparr>)
                    else if c = CHR ''}'' then (scanEndObject, popParseState s)
                    else scanner_error s c ''after object key:value pair''
                | parseArrayValue \<Rightarrow>
                    if c = CHR '',''
                    then (scanArrayValue, s\<lparr>step := StateBeginValue\<rparr>)
                    else if c = CHR '']'' then (scanEndArray, popParseState s)
                    else scanner_error s c ''after array element''))"

definition stateBeginValue :: "scanner \<Rightarrow> char \<Rightarrow> opcode \<times> scanner" where
  "stateBeginValue s c =
     (if isSpace c then (scanSkipSpace, s)
      else if c = CHR ''{''
        then pushParseState (s\<lparr>step := StateBeginStringOrEmpty\<rparr>) c parseObjectKey scanBeginObject
      else if c = CHR ''[''
        then pushParseState (s\<lparr>step := StateBeginValueOrEmpty\<rparr>) c parseArrayValue scanBeginArray
      else if c = CHR 0x22 then (scanBeginLiteral, s\<lparr>step := StateInString\<rparr>)
      else if c = CHR ''-'' then (scanBeginLiteral, s\<lparr>step := StateNeg\<rparr>)
      else if c = CHR ''0'' then (scanBeginLiteral, s\<lparr>step := State0\<rparr>)
      else if c = CHR ''t'' then (scanBeginLiteral, s\<lparr>step := StateT\<rparr>)
      else if c = CHR ''f'' then (scanBeginLiteral, s\<lparr>step := StateF\<rparr>)
      else if c = CHR ''n'' then (scanBeginLiteral, s\<lparr>step := StateN\<rparr>)
      else if c \<in> set ''123456789'' then (scanBeginLiteral, s\<lparr>step := State1\<rparr>)
      else scanner_error s c ''looking for beginning of value'')"

definition stateBeginValueOrEmpty :: "scanner \<Rightarrow> char \<Rightarrow> opcode \<times> scanner" where
  "stateBeginValueOrEmpty s c =
     (if isSpace c then (scanSkipSpace, s)
      else if c = CHR '']'' then stateEndValue s c
      else stateBeginValue s c)"

definition stateBeginString :: "scanner \<Rightarrow> char \<Rightarrow> opcode \<times> scanner" where
  "stateBeginString s c =
     (if isSpace c then (scanSkipSpace, s)
      else if c = CHR 0x22 then (scanBeginLiteral, s\<lparr>step := StateInString\<rparr>)
      else scanner_error s c ''looking for beginning of object key string'')"

definition stateBeginStringOrEmpty :: "scanner \<Rightarrow> char \<Rightarrow> opcode \<times> scanner" where
  "stateBeginStringOrEmpty s c =
     (if isSpace c then (scanSkipSpace, s)
      else if c = CHR ''}''
        then stateEndValue (s\<lparr>parseState := parseObjectValue # tl (parseState s)\<rparr>) c
      else stateBeginString s c)"

definition stateInString :: "scanner \<Rightarrow> char \<Rightarrow> opcode \<times> scanner" where
  "stateInString s c =
     (if c = CHR 0x22 then (scanContinue, s\<lparr>step := StateEndValue\<rparr>)
      else if c = CHR 0x5C then (scanContinue, s\<lparr>step := StateInStringEsc\<rparr>)
      else if (of_char c :: nat) < 0x20 then scanner_error s c ''in string literal''
      else (scanContinue, s))"

definition stateInStringEsc :: "scanner \<Rightarrow> char \<Rightarrow> opcode \<times> scanner" where
  "stateInStringEsc s c =
     (if c \<in> set ''bfnrt/'' \<or> c = CHR 0x5C \<or> c = CHR 0x22
        then (scanContinue, s\<lparr>step := StateInString\<rparr>)
      else if c = CHR ''u'' then (scanContinue, s\<lparr>step := StateInStringEscU\<rparr>)
      else scanner_error s c ''in string escape code'')"

definition isHex :: "char \<Rightarrow> bool" where
  "isHex c \<longleftrightarrow> c \<in> set ''0123456789abcdefABCDEF''"

definition stateHex :: "stepfn \<Rightarrow> scanner \<Rightarrow> char \<Rightarrow> opcode \<times> scanner" where
  \<comment> \<open>the common body of \<^verbatim>\<open>stateInStringEscU\<close>, \<^verbatim>\<open>U1\<close>, \<^verbatim>\<open>U12\<close> and \<^verbatim>\<open>U123\<close>\<close>
  "stateHex next_step s c =
     (if isHex c then (scanContinue, s\<lparr>step := next_step\<rparr>)
      else scanner_error s c (''in '' @ [CHR 0x5C] @ ''u hexadecimal character escape''))"

definition isDigit :: "char \<Rightarrow> bool" where
  "isDigit c \<longleftrightarrow> c \<in> set ''0123456789''"

definition stateNeg :: "scanner \<Rightarrow> char \<Rightarrow> opcode \<times> scanner" where
  "stateNeg s c =
     (if c = CHR ''0'' then (scanContinue, s\<lparr>step := State0\<rparr>)
      else if c \<in> set ''123456789'' then (scanContinue, s\<lparr>step := State1\<rparr>)
      else scanner_error s c ''in numeric literal'')"

definition stateE0 :: "scanner \<Rightarrow> char \<Rightarrow> opcode \<times> scanner" where
  "stateE0 s c = (if isDigit c then (scanContinue, s) else stateEndValue s c)"

definition stateESign :: "scanner \<Rightarrow> char \<Rightarrow> opcode \<times> scanner" where
  "stateESign s c =
     (if isDigit c then (scanContinue, s\<lparr>step := StateE0\<rparr>)
      else scanner_error s c ''in exponent of numeric literal'')"

definition stateE :: "scanner \<Rightarrow> char \<Rightarrow> opcode \<times> scanner" where
  "stateE s c =
     (if c = CHR ''+'' \<or> c = CHR ''-'' then (scanContinue, s\<lparr>step := StateESign\<rparr>)
      else stateESign s c)"

definition stateDot0 :: "scanner \<Rightarrow> char \<Rightarrow> opcode \<times> scanner" where
  "stateDot0 s c =
     (if isDigit c then (scanContinue, s)
      else if c = CHR ''e'' \<or> c = CHR ''E'' then (scanContinue, s\<lparr>step := StateE\<rparr>)
      else stateEndValue s c)"

definition stateDot :: "scanner \<Rightarrow> char \<Rightarrow> opcode \<times> scanner" where
  "stateDot s c =
     (if isDigit c then (scanContinue, s\<lparr>step := StateDot0\<rparr>)
      else scanner_error s c ''after decimal point in numeric literal'')"

definition state0 :: "scanner \<Rightarrow> char \<Rightarrow> opcode \<times> scanner" where
  "state0 s c =
     (if c = CHR ''.'' then (scanContinue, s\<lparr>step := StateDot\<rparr>)
      else if c = CHR ''e'' \<or> c = CHR ''E'' then (scanContinue, s\<lparr>step := StateE\<rparr>)
      else stateEndValue s c)"

definition state1 :: "scanner \<Rightarrow> char \<Rightarrow> opcode \<times> scanner" where
  "state1 s c =
     (if isDigit c then (scanContinue, s\<lparr>step := State1\<rparr>) else state0 s c)"

definition stateLit :: "char \<Rightarrow> stepfn \<Rightarrow> string \<Rightarrow> scanner \<Rightarrow> char \<Rightarrow> opcode \<times> scanner" where
  \<comment> \<open>the common body of \<^verbatim>\<open>stateT\<close> ... \<^verbatim>\<open>stateNul\<close>: one letter of a literal\<close>
  "stateLit want next_step context_msg s c =
     (if c = want then (scanContinue, s\<lparr>step := next_step\<rparr>)
      else scanner_error s c context_msg)"

definition stateError :: "scanner \<Rightarrow> char \<Rightarrow> opcode \<times> scanner" where
  "stateError s c = (scanError, s)"

text \<open>\<^verbatim>\<open>s.step(s, c)\<close>: the call through the function value.\<close>

definition scanner_step :: "scanner \<Rightarrow> char \<Rightarrow> opcode \<times> scanner" where
  "scanner_step s c =
     (case step s of
        StateBeginValueOrEmpty \<Rightarrow> stateBeginValueOrEmpty s c
      | StateBeginValue \<Rightarrow> stateBeginValue s c
      | StateBeginStringOrEmpty \<Rightarrow> stateBeginStringOrEmpty s c
      | StateBeginString \<Rightarrow> stateBeginString s c
      | StateEndValue \<Rightarrow> stateEndValue s c
      | StateEndTop \<Rightarrow> stateEndTop s c
      | StateInString \<Rightarrow> stateInString s c
      | StateInStringEsc \<Rightarrow> stateInStringEsc s c
      | StateInStringEscU \<Rightarrow> stateHex StateInStringEscU1 s c
      | StateInStringEscU1 \<Rightarrow> stateHex StateInStringEscU12 s c
      | StateInStringEscU12 \<Rightarrow> stateHex StateInStringEscU123 s c
      | StateInStringEscU123 \<Rightarrow> stateHex StateInString s c
      | StateNeg \<Rightarrow> stateNeg s c
      | State1 \<Rightarrow> state1 s c
      | State0 \<Rightarrow> state0 s c
      | StateDot \<Rightarrow> stateDot s c
      | StateDot0 \<Rightarrow> stateDot0 s c
      | StateE \<Rightarrow> stateE s c
      | StateESign \<Rightarrow> stateESign s c
      | StateE0 \<Rightarrow> stateE0 s c
      | StateT \<Rightarrow> stateLit CHR ''r'' StateTr ''in literal true (expecting 'r')'' s c
      | StateTr \<Rightarrow> stateLit CHR ''u'' StateTru ''in literal true (expecting 'u')'' s c
      | StateTru \<Rightarrow> stateLit CHR ''e'' StateEndValue ''in literal true (expecting 'e')'' s c
      | StateF \<Rightarrow> stateLit CHR ''a'' StateFa ''in literal false (expecting 'a')'' s c
      | StateFa \<Rightarrow> stateLit CHR ''l'' StateFal ''in literal false (expecting 'l')'' s c
      | StateFal \<Rightarrow> stateLit CHR ''s'' StateFals ''in literal false (expecting 's')'' s c
      | StateFals \<Rightarrow> stateLit CHR ''e'' StateEndValue ''in literal false (expecting 'e')'' s c
      | StateN \<Rightarrow> stateLit CHR ''u'' StateNu ''in literal null (expecting 'u')'' s c
      | StateNu \<Rightarrow> stateLit CHR ''l'' StateNul ''in literal null (expecting 'l')'' s c
      | StateNul \<Rightarrow> stateLit CHR ''l'' StateEndValue ''in literal null (expecting 'l')'' s c
      | StateError \<Rightarrow> stateError s c)"

section \<open>The decoder of \<^verbatim>\<open>encoding/json\<close>\<close>

text \<open>
  \<^verbatim>\<open>json.Decoder\<close>: the reader, the bytes read from it and not yet consumed (in Go
  \<^verbatim>\<open>dec.buf[dec.scanp:]\<close>), the error a failed \<^verbatim>\<open>readValue\<close> leaves behind, and the
  state of the token interface. The top of the token stack is the head of the list.
\<close>

datatype tstate =
    tokenTopValue | tokenArrayStart | tokenArrayValue | tokenArrayComma
  | tokenObjectStart | tokenObjectKey | tokenObjectColon | tokenObjectValue
  | tokenObjectComma

record 's Decoder =
  dec_r :: "'s reader"
  buf :: string
  dec_err :: "error option"
  tokenState :: tstate
  tokenStack :: "tstate list"

definition NewDecoder :: "'s reader \<Rightarrow> 's Decoder" where
  "NewDecoder rd =
     \<lparr>dec_r = rd, buf = [], dec_err = None, tokenState = tokenTopValue, tokenStack = []\<rparr>"

text \<open>\<^verbatim>\<open>refill\<close>: one \<^verbatim>\<open>Read\<close>, its bytes appended to the buffer, its error returned.\<close>

definition refill ::
  "'s Decoder \<Rightarrow> ('s, 'c) caller \<Rightarrow> error option \<times> 's Decoder \<times> ('s, 'c) caller" where
  "refill dec st =
     (case Read (dec_r dec) st of
        ((p, e), rd', st') \<Rightarrow> (e, dec\<lparr>dec_r := rd', buf := buf dec @ p\<rparr>, st'))"

text \<open>
  The two loops of the decoder that read (\<^verbatim>\<open>peek\<close> and \<^verbatim>\<open>readValue\<close>) stop at the
  first error of the reader once the buffer is scanned; reads that return \<^verbatim>\<open>nil\<close> use
  up the stream. This is what their termination rests on.
\<close>

definition reads_left :: "error option \<Rightarrow> 's Decoder \<Rightarrow> nat" where
  "reads_left e dec = 2 * length (pending (dec_r dec)) + (if e = None then 1 else 0)"

lemma refill_reads_left:
  "(case refill dec st of (e', dec', st') \<Rightarrow> reads_left e' dec') < reads_left None dec"
  by (auto simp: refill_def Read_def progressReader_Read_def body_Read_def reads_left_def
      pending_def Let_def split: reader.splits list.splits prod.splits option.splits)

text \<open>
  \<^verbatim>\<open>
  func (dec *Decoder) peek() (byte, error) {
      var err error
      for {
          for i := dec.scanp; i < len(dec.buf); i++ {
              c := dec.buf[i]
              if isSpace(c) { continue }
              dec.scanp = i
              return c, nil
          }
          // buffer has been scanned, now report any error
          if err != nil { return 0, err }
          err = dec.refill()
      }
  }
  \<close>
\<close>

function peek_loop ::
  "error option \<Rightarrow> 's Decoder \<Rightarrow> ('s, 'c) caller \<Rightarrow> (error + char) \<times> 's Decoder \<times> ('s, 'c) caller"
  where
  "peek_loop e dec st =
     (case dropWhile isSpace (buf dec) of
        c # cs \<Rightarrow> (Inr c, dec\<lparr>buf := c # cs\<rparr>, st)
      | [] \<Rightarrow>
          (case e of
             Some e' \<Rightarrow> (Inl e', dec, st)
           | None \<Rightarrow> (case refill dec st of (e', dec', st') \<Rightarrow> peek_loop e' dec' st')))"
  by pat_completeness auto
termination
  by (relation "measure (\<lambda>(e, dec, st). reads_left e dec)") (auto simp: refill_reads_left)

declare peek_loop.simps [simp del]

definition peek ::
  "'s Decoder \<Rightarrow> ('s, 'c) caller \<Rightarrow> (error + char) \<times> 's Decoder \<times> ('s, 'c) caller" where
  "peek dec st = peek_loop None dec st"

text \<open>
  \<^verbatim>\<open>readValue\<close>: the inner loop feeds the scanner the bytes of the buffer, from the
  \<open>n\<close>-th on. The end of a number or literal is seen one byte late (\<^verbatim>\<open>scanEnd\<close>); the
  end of an object or array at once, by a space byte invented for the scanner.
\<close>

datatype scan_outcome =
    ScanDone nat
  | ScanFail "error option"
  | ScanMore scanner nat

fun scan_bytes :: "scanner \<Rightarrow> nat \<Rightarrow> string \<Rightarrow> scan_outcome" where
  "scan_bytes sc n [] = ScanMore sc n"
| "scan_bytes sc n (c # cs) =
     (case scanner_step sc c of
        (opc, sc') \<Rightarrow>
          if opc = scanEnd then ScanDone n
          else if opc = scanEndObject \<or> opc = scanEndArray then
            (case stateEndValue sc' CHR '' '' of
               (opc', sc'') \<Rightarrow>
                 if opc' = scanEnd then ScanDone (Suc n) else scan_bytes sc'' (Suc n) cs)
          else if opc = scanError then ScanFail (err sc')
          else scan_bytes sc' (Suc n) cs)"

definition nonSpace :: "string \<Rightarrow> bool" where
  "nonSpace b \<longleftrightarrow> (\<exists>c \<in> set b. \<not> isSpace c)"

function readValue_loop ::
  "scanner \<Rightarrow> nat \<Rightarrow> error option \<Rightarrow> 's Decoder \<Rightarrow> ('s, 'c) caller
     \<Rightarrow> (error option \<times> nat) \<times> 's Decoder \<times> ('s, 'c) caller"
  where
  "readValue_loop sc n e dec st =
     (case scan_bytes sc n (drop n (buf dec)) of
        ScanDone m \<Rightarrow> ((None, m), dec, st)
      | ScanFail e' \<Rightarrow> ((e', 0), dec\<lparr>dec_err := e'\<rparr>, st)
      | ScanMore sc' m \<Rightarrow>
          (case e of
             Some e' \<Rightarrow>
               if e' = EOF then
                 (if fst (scanner_step sc' CHR '' '') = scanEnd then ((None, m), dec, st)
                  else (let e'' = (if nonSpace (buf dec) then ErrUnexpectedEOF else EOF)
                        in ((Some e'', 0), dec\<lparr>dec_err := Some e''\<rparr>, st)))
               else ((Some e', 0), dec\<lparr>dec_err := Some e'\<rparr>, st)
           | None \<Rightarrow>
               (case refill dec st of (e', dec', st') \<Rightarrow> readValue_loop sc' m e' dec' st')))"
  by pat_completeness auto
termination
  by (relation "measure (\<lambda>(sc, n, e, dec, st). reads_left e dec)") (auto simp: refill_reads_left)

declare readValue_loop.simps [simp del]

definition readValue ::
  "'s Decoder \<Rightarrow> ('s, 'c) caller \<Rightarrow> (error option \<times> nat) \<times> 's Decoder \<times> ('s, 'c) caller" where
  "readValue dec st = readValue_loop scanner_reset 0 None dec st"

text \<open>The token state (\<^verbatim>\<open>stream.go\<close>).\<close>

definition tokenValueAllowed :: "'s Decoder \<Rightarrow> bool" where
  "tokenValueAllowed dec \<longleftrightarrow>
     tokenState dec \<in> {tokenTopValue, tokenArrayStart, tokenArrayValue, tokenObjectValue}"

definition tokenValueEnd :: "'s Decoder \<Rightarrow> 's Decoder" where
  "tokenValueEnd dec =
     (if tokenState dec = tokenArrayStart \<or> tokenState dec = tokenArrayValue
        then dec\<lparr>tokenState := tokenArrayComma\<rparr>
      else if tokenState dec = tokenObjectValue then dec\<lparr>tokenState := tokenObjectComma\<rparr>
      else dec)"

definition tokenError :: "'s Decoder \<Rightarrow> char \<Rightarrow> error" where
  "tokenError dec c =
     SyntaxError (Some c)
       (case tokenState dec of
          tokenTopValue \<Rightarrow> ''looking for beginning of value''
        | tokenArrayStart \<Rightarrow> ''looking for beginning of value''
        | tokenArrayValue \<Rightarrow> ''looking for beginning of value''
        | tokenObjectValue \<Rightarrow> ''looking for beginning of value''
        | tokenArrayComma \<Rightarrow> ''after array element''
        | tokenObjectKey \<Rightarrow> ''looking for beginning of object key string''
        | tokenObjectColon \<Rightarrow> ''after object key''
        | tokenObjectComma \<Rightarrow> ''after object key:value pair''
        | tokenObjectStart \<Rightarrow> [])"

text \<open>
  \<^verbatim>\<open>tokenPrepareForDecode\<close>: between two elements of an array (or a key and its
  value) the separator is consumed before the value is read.
\<close>

definition tokenPrepareForDecode ::
  "'s Decoder \<Rightarrow> ('s, 'c) caller \<Rightarrow> error option \<times> 's Decoder \<times> ('s, 'c) caller" where
  "tokenPrepareForDecode dec st =
     (if tokenState dec = tokenArrayComma then
        (case peek dec st of
           (Inl e, dec', st') \<Rightarrow> (Some e, dec', st')
         | (Inr c, dec', st') \<Rightarrow>
             if c \<noteq> CHR '',''
             then (Some (SyntaxError None ''expected comma after array element''), dec', st')
             else (None, dec'\<lparr>buf := tl (buf dec'), tokenState := tokenArrayValue\<rparr>, st'))
      else if tokenState dec = tokenObjectColon then
        (case peek dec st of
           (Inl e, dec', st') \<Rightarrow> (Some e, dec', st')
         | (Inr c, dec', st') \<Rightarrow>
             if c \<noteq> CHR '':''
             then (Some (SyntaxError None ''expected colon after object key''), dec', st')
             else (None, dec'\<lparr>buf := tl (buf dec'), tokenState := tokenObjectValue\<rparr>, st'))
      else (None, dec, st))"

text \<open>
  \<^verbatim>\<open>Decode\<close>. What \<^verbatim>\<open>json.Unmarshal\<close> makes of the bytes of one complete value
  depends on the Go type of the destination; it is the parameter \<open>unmarshal\<close>, which
  returns the decoded value or the error. An error of \<open>unmarshal\<close> is not kept in
  \<^verbatim>\<open>dec.err\<close>, and the value's bytes are consumed all the same.
  \<^verbatim>\<open>
  func (dec *Decoder) Decode(v any) error {
      if dec.err != nil { return dec.err }
      if err := dec.tokenPrepareForDecode(); err != nil { return err }
      if !dec.tokenValueAllowed() {
          return &SyntaxError{msg: "not at beginning of value", Offset: dec.InputOffset()}
      }
      n, err := dec.readValue()
      if err != nil { return err }
      dec.d.init(dec.buf[dec.scanp : dec.scanp+n])
      dec.scanp += n
      err = dec.d.unmarshal(v)
      dec.tokenValueEnd()
      return err
  }
  \<close>
\<close>

definition Decode ::
  "(string \<Rightarrow> error + 'v) \<Rightarrow> 's Decoder \<Rightarrow> ('s, 'c) caller
     \<Rightarrow> (error + 'v) \<times> 's Decoder \<times> ('s, 'c) caller" where
  "Decode unmarshal dec st =
     (case dec_err dec of
        Some e \<Rightarrow> (Inl e, dec, st)
      | None \<Rightarrow>
          (case tokenPrepareForDecode dec st of
             (Some e, dec1, st1) \<Rightarrow> (Inl e, dec1, st1)
           | (None, dec1, st1) \<Rightarrow>
               if \<not> tokenValueAllowed dec1
               then (Inl (SyntaxError None ''not at beginning of value''), dec1, st1)
               else
                 (case readValue dec1 st1 of
                    ((Some e, n), dec2, st2) \<Rightarrow> (Inl e, dec2, st2)
                  | ((None, n), dec2, st2) \<Rightarrow>
                      (unmarshal (take n (buf dec2)),
                       tokenValueEnd (dec2\<lparr>buf := drop n (buf dec2)\<rparr>), st2))))"

text \<open>The bytes not yet consumed: those in the buffer and those the stream still holds.\<close>

definition unread :: "'s Decoder \<Rightarrow> nat" where
  "unread dec = length (buf dec) + sum_list (map (\<lambda>res. length (fst res)) (pending (dec_r dec)))"

lemma refill_unread:
  "refill dec st = (e, dec', st') \<Longrightarrow> unread dec' = unread dec"
  by (auto simp: refill_def Read_def progressReader_Read_def body_Read_def unread_def
      pending_def Let_def split: reader.splits list.splits prod.splits option.splits)

lemma length_dropWhile_tl: "dropWhile P xs = c # cs \<Longrightarrow> length cs < length xs"
  by (metis length_dropWhile_le impossible_Cons not_le_imp_less order.trans)

lemma peek_loop_unread:
  "peek_loop e dec st = (res, dec', st') \<Longrightarrow>
     unread dec' \<le> unread dec \<and> (\<forall>c. res = Inr c \<longrightarrow> (\<exists>cs. buf dec' = c # cs))"
proof (induction e dec st rule: peek_loop.induct)
  case (1 e dec st)
  show ?case
  proof (cases "dropWhile isSpace (buf dec)")
    case (Cons c cs)
    have "length (c # cs) \<le> length (buf dec)"
      using length_dropWhile_le [of isSpace "buf dec"] Cons by simp
    with "1.prems" Cons show ?thesis
      by (subst (asm) peek_loop.simps) (auto simp: unread_def)
  next
    case Nil
    show ?thesis
    proof (cases e)
      case (Some e')
      with "1.prems" Nil show ?thesis
        by (subst (asm) peek_loop.simps) auto
    next
      case None
      obtain e1 dec1 st1 where r: "refill dec st = (e1, dec1, st1)"
        by (cases "refill dec st") auto
      from "1.prems" Nil None r have "peek_loop e1 dec1 st1 = (res, dec', st')"
        by (subst (asm) peek_loop.simps) simp
      from "1.IH" [OF Nil None r [symmetric] refl this] refill_unread [OF r]
      show ?thesis by simp
    qed
  qed
qed

lemma peek_unread:
  "peek dec st = (Inr c, dec', st') \<Longrightarrow> buf dec' \<noteq> [] \<and> unread (dec'\<lparr>buf := tl (buf dec')\<rparr>) < unread dec"
  using peek_loop_unread [of None dec st "Inr c" dec' st']
  by (auto simp: peek_def unread_def)

text \<open>
  \<^verbatim>\<open>Token\<close> returns a delimiter (\<^verbatim>\<open>json.Delim\<close>: one of \<^verbatim>\<open>[ ] { }\<close>) or a value
  (bool, float64, string or nil), of which only the kind matters here. Colons and
  commas are skipped where the token state expects them, so the function loops.
  \<open>unmarshal_any\<close> is \<^verbatim>\<open>json.Unmarshal\<close> into a variable of type \<^verbatim>\<open>any\<close> (for an
  object key: of type \<^verbatim>\<open>string\<close>), as far as its error goes.
\<close>

datatype json_Token = Delim char | TokenValue

definition discard_value :: "(string \<Rightarrow> error option) \<Rightarrow> string \<Rightarrow> error + unit" where
  "discard_value unmarshal_any b = (case unmarshal_any b of None \<Rightarrow> Inr () | Some e \<Rightarrow> Inl e)"

function Token ::
  "(string \<Rightarrow> error option) \<Rightarrow> 's Decoder \<Rightarrow> ('s, 'c) caller
     \<Rightarrow> (error + json_Token) \<times> 's Decoder \<times> ('s, 'c) caller"
  where
  "Token unmarshal_any dec st =
     (case peek dec st of
        (Inl e, dec1, st1) \<Rightarrow> (Inl e, dec1, st1)
      | (Inr c, dec1, st1) \<Rightarrow>
          if c = CHR ''['' then
            (if \<not> tokenValueAllowed dec1 then (Inl (tokenError dec1 c), dec1, st1)
             else (Inr (Delim CHR ''[''),
                   dec1\<lparr>buf := tl (buf dec1), tokenStack := tokenState dec1 # tokenStack dec1,
                        tokenState := tokenArrayStart\<rparr>, st1))
          else if c = CHR '']'' then
            (if tokenState dec1 \<noteq> tokenArrayStart \<and> tokenState dec1 \<noteq> tokenArrayComma
             then (Inl (tokenError dec1 c), dec1, st1)
             else (case tokenStack dec1 of
                     [] \<Rightarrow> (Inl (ErrorString ''panic: index out of range''), dec1, st1)
                   | t # ts \<Rightarrow>
                       (Inr (Delim CHR '']''),
                        tokenValueEnd (dec1\<lparr>buf := tl (buf dec1), tokenState := t,
                                           tokenStack := ts\<rparr>), st1)))
          else if c = CHR ''{'' then
            (if \<not> tokenValueAllowed dec1 then (Inl (tokenError dec1 c), dec1, st1)
             else (Inr (Delim CHR ''{''),
                   dec1\<lparr>buf := tl (buf dec1), tokenStack := tokenState dec1 # tokenStack dec1,
                        tokenState := tokenObjectStart\<rparr>, st1))
          else if c = CHR ''}'' then
            (if tokenState dec1 \<noteq> tokenObjectStart \<and> tokenState dec1 \<noteq> tokenObjectComma
             then (Inl (tokenError dec1 c), dec1, st1)
             else (case tokenStack dec1 of
                     [] \<Rightarrow> (Inl (ErrorString ''panic: index out of range''), dec1, st1)
                   | t # ts \<Rightarrow>
                       (Inr (Delim CHR ''}''),
                        tokenValueEnd (dec1\<lparr>buf := tl (buf dec1), tokenState := t,
                                           tokenStack := ts\<rparr>), st1)))
          else if c = CHR '':'' then
            (if tokenState dec1 \<noteq> tokenObjectColon then (Inl (tokenError dec1 c), dec1, st1)
             else Token unmarshal_any
                    (dec1\<lparr>buf := tl (buf dec1), tokenState := tokenObjectValue\<rparr>) st1)
          else if c = CHR '','' then
            (if tokenState dec1 = tokenArrayComma
             then Token unmarshal_any
                    (dec1\<lparr>buf := tl (buf dec1), tokenState := tokenArrayValue\<rparr>) st1
             else if tokenState dec1 = tokenObjectComma
             then Token unmarshal_any
                    (dec1\<lparr>buf := tl (buf dec1), tokenState := tokenObjectKey\<rparr>) st1
             else (Inl (tokenError dec1 c), dec1, st1))
          else if c = CHR 0x22 \<and>
                  (tokenState dec1 = tokenObjectStart \<or> tokenState dec1 = tokenObjectKey) then
            (case Decode (discard_value unmarshal_any) (dec1\<lparr>tokenState := tokenTopValue\<rparr>) st1 of
               (Inl e, dec2, st2) \<Rightarrow> (Inl e, dec2\<lparr>tokenState := tokenState dec1\<rparr>, st2)
             | (Inr x, dec2, st2) \<Rightarrow> (Inr TokenValue, dec2\<lparr>tokenState := tokenObjectColon\<rparr>, st2))
          else
            (if \<not> tokenValueAllowed dec1 then (Inl (tokenError dec1 c), dec1, st1)
             else (case Decode (discard_value unmarshal_any) dec1 st1 of
                     (Inl e, dec2, st2) \<Rightarrow> (Inl e, dec2, st2)
                   | (Inr x, dec2, st2) \<Rightarrow> (Inr TokenValue, dec2, st2))))"
  by pat_completeness auto
termination
proof (relation "measure (\<lambda>(u, dec, st). unread dec)")
  show "wf (measure (\<lambda>(u, dec, st). unread dec))"
    by simp
qed (auto dest!: peek_unread [OF sym] simp: unread_def)

declare Token.simps [simp del]

text \<open>
  \<^verbatim>\<open>
  func (dec *Decoder) More() bool {
      c, err := dec.peek()
      return err == nil && c != ']' && c != '}'
  }
  \<close>
\<close>

definition More :: "'s Decoder \<Rightarrow> ('s, 'c) caller \<Rightarrow> bool \<times> 's Decoder \<times> ('s, 'c) caller" where
  "More dec st =
     (case peek dec st of
        (Inl e, dec', st') \<Rightarrow> (False, dec', st')
      | (Inr c, dec', st') \<Rightarrow> (c \<noteq> CHR '']'' \<and> c \<noteq> CHR ''}'', dec', st'))"

subsection \<open>A successful \<^verbatim>\<open>Decode\<close> consumes at least one byte\<close>

text \<open>
  The scanner returns \<^verbatim>\<open>scanError\<close> only with its error set, and never ends a value
  on the first byte it is fed. So a \<^verbatim>\<open>readValue\<close> that returns no error returns a
  count of at least one, within the buffer, and the loop of
  \<^verbatim>\<open>ProcessBulkDataStream\<close> consumes input in every round.
\<close>

definition sc_ok :: "scanner \<Rightarrow> bool" where
  "sc_ok sc \<longleftrightarrow> (step sc = StateError \<longrightarrow> err sc \<noteq> None)"

definition step_ok :: "opcode \<times> scanner \<Rightarrow> bool" where
  "step_ok r \<longleftrightarrow> sc_ok (snd r) \<and> (fst r = scanError \<longrightarrow> err (snd r) \<noteq> None)"

lemma scanner_error_ok [simp]: "step_ok (scanner_error sc c m)"
  by (simp add: step_ok_def sc_ok_def scanner_error_def)

lemma step_ok_plain [simp]: "opc \<noteq> scanError \<Longrightarrow> step_ok (opc, sc) \<longleftrightarrow> sc_ok sc"
  by (simp add: step_ok_def)

lemma sc_ok_upd [simp]:
  "st \<noteq> StateError \<Longrightarrow> sc_ok (sc\<lparr>step := st\<rparr>)"
  "sc_ok (sc\<lparr>parseState := ps\<rparr>) \<longleftrightarrow> sc_ok sc"
  "sc_ok (sc\<lparr>endTop := b\<rparr>) \<longleftrightarrow> sc_ok sc"
  by (simp_all add: sc_ok_def)

lemma popParseState_ok [simp]: "sc_ok (popParseState sc)"
  by (simp add: popParseState_def Let_def)

lemma stateEndTop_ok [simp]: "sc_ok sc \<Longrightarrow> step_ok (stateEndTop sc c)"
  by (simp add: stateEndTop_def step_ok_def sc_ok_def scanner_error_def)

lemma stateEndValue_ok [simp]: "sc_ok sc \<Longrightarrow> step_ok (stateEndValue sc c)"
  by (simp add: stateEndValue_def split: list.split pstate.split)

lemma pushParseState_ok [simp]:
  "sc_ok sc \<Longrightarrow> opc \<noteq> scanError \<Longrightarrow> step_ok (pushParseState sc c p opc)"
  by (simp add: pushParseState_def Let_def)

lemma stateBeginValue_ok [simp]: "sc_ok sc \<Longrightarrow> step_ok (stateBeginValue sc c)"
  by (simp add: stateBeginValue_def del: set_simps)


lemma stateBeginValue_no_end: "fst (stateBeginValue sc c) \<noteq> scanEnd"
  by (simp add: stateBeginValue_def pushParseState_def scanner_error_def Let_def del: set_simps)

lemma stateError_ok [simp]: "sc_ok sc \<Longrightarrow> step sc = StateError \<Longrightarrow> step_ok (scanError, sc)"
  by (simp add: step_ok_def sc_ok_def)

lemma scanner_step_ok: "sc_ok sc \<Longrightarrow> step_ok (scanner_step sc c)"
  by (cases "step sc")
    (simp_all add: scanner_step_def stateBeginValueOrEmpty_def stateBeginStringOrEmpty_def
      stateBeginString_def stateInString_def stateInStringEsc_def stateHex_def stateNeg_def
      state1_def state0_def stateDot_def stateDot0_def stateE_def stateESign_def stateE0_def
      stateLit_def stateError_def del: set_simps)

lemma scan_bytes_ok:
  "sc_ok sc \<Longrightarrow> n = 0 \<longrightarrow> step sc = StateBeginValue \<Longrightarrow>
     (case scan_bytes sc n bs of
        ScanDone m \<Rightarrow> 1 \<le> m \<and> m \<le> n + length bs
      | ScanFail e \<Rightarrow> e \<noteq> None
      | ScanMore sc' m \<Rightarrow>
          sc_ok sc' \<and> m = n + length bs \<and> (m = 0 \<longrightarrow> step sc' = StateBeginValue))"
proof (induction bs arbitrary: sc n)
  case Nil
  then show ?case by simp
next
  case (Cons c cs)
  obtain opc sc' where s: "scanner_step sc c = (opc, sc')"
    by (cases "scanner_step sc c") auto
  obtain opc' sc'' where e: "stateEndValue sc' CHR '' '' = (opc', sc'')"
    by (cases "stateEndValue sc' CHR '' ''") auto
  from scanner_step_ok [OF Cons.prems(1), of c] s
  have ok': "sc_ok sc'" and er: "opc = scanError \<longrightarrow> err sc' \<noteq> None"
    by (simp_all add: step_ok_def)
  from stateEndValue_ok [OF ok', of "CHR '' ''"] e have ok'': "sc_ok sc''"
    by (simp add: step_ok_def)
  have first: "n = 0 \<longrightarrow> opc \<noteq> scanEnd"
    using Cons.prems(2) s stateBeginValue_no_end [of sc c]
    by (auto simp: scanner_step_def)
  have ih': "case scan_bytes sc' (Suc n) cs of
        ScanDone m \<Rightarrow> 1 \<le> m \<and> m \<le> Suc n + length cs
      | ScanFail e \<Rightarrow> e \<noteq> None
      | ScanMore sc2 m \<Rightarrow>
          sc_ok sc2 \<and> m = Suc n + length cs \<and> (m = 0 \<longrightarrow> step sc2 = StateBeginValue)"
    by (rule Cons.IH [OF ok']) simp
  have ih'': "case scan_bytes sc'' (Suc n) cs of
        ScanDone m \<Rightarrow> 1 \<le> m \<and> m \<le> Suc n + length cs
      | ScanFail e \<Rightarrow> e \<noteq> None
      | ScanMore sc2 m \<Rightarrow>
          sc_ok sc2 \<and> m = Suc n + length cs \<and> (m = 0 \<longrightarrow> step sc2 = StateBeginValue)"
    by (rule Cons.IH [OF ok'']) simp
  show ?case
    using s e er first ih' ih''
    by (auto split: scan_outcome.splits)
qed


lemma readValue_loop_progress:
  "sc_ok sc \<Longrightarrow> n = 0 \<longrightarrow> step sc = StateBeginValue \<Longrightarrow> n \<le> length (buf dec) \<Longrightarrow>
   readValue_loop sc n e dec st = ((r, m), dec', st') \<Longrightarrow>
     unread dec' = unread dec \<and> (r = None \<longrightarrow> 1 \<le> m \<and> m \<le> length (buf dec'))"
proof (induction sc n e dec st rule: readValue_loop.induct)
  case (1 sc n e dec st)
  note sb = scan_bytes_ok [OF "1.prems"(1,2), of "drop n (buf dec)"]
  show ?case
  proof (cases "scan_bytes sc n (drop n (buf dec))")
    case (ScanDone k)
    with "1.prems" sb show ?thesis
      by (subst (asm) readValue_loop.simps) auto
  next
    case (ScanFail x)
    with "1.prems" sb show ?thesis
      by (subst (asm) readValue_loop.simps) (auto simp: unread_def)
  next
    case (ScanMore sc' k)
    with sb "1.prems"(3) have ok': "sc_ok sc'" and k: "k = length (buf dec)"
      and k0: "k = 0 \<longrightarrow> step sc' = StateBeginValue"
      by simp_all
    show ?thesis
    proof (cases e)
      case (Some e')
      have "k = 0 \<Longrightarrow> fst (scanner_step sc' CHR '' '') \<noteq> scanEnd"
        using k0 stateBeginValue_no_end [of sc' "CHR '' ''"] by (simp add: scanner_step_def)
      with "1.prems"(4) ScanMore Some k show ?thesis
        by (subst (asm) readValue_loop.simps)
           (auto simp: unread_def Let_def Suc_le_eq split: if_splits)
    next
      case None
      obtain e1 dec1 st1 where rf: "refill dec st = (e1, dec1, st1)"
        by (cases "refill dec st") auto
      from "1.prems"(4) ScanMore None rf
      have run: "readValue_loop sc' k e1 dec1 st1 = ((r, m), dec', st')"
        by (subst (asm) readValue_loop.simps) simp
      have "k \<le> length (buf dec1)"
        using rf k by (auto simp: refill_def split: prod.splits)
      from "1.IH" [OF ScanMore None rf [symmetric] refl ok' k0 this run] refill_unread [OF rf]
      show ?thesis by simp
    qed
  qed
qed

lemma tokenPrepareForDecode_unread:
  "tokenPrepareForDecode dec st = (r, dec', st') \<Longrightarrow> unread dec' \<le> unread dec"
  using peek_loop_unread [of None dec st]
  by (auto simp: tokenPrepareForDecode_def peek_def unread_def
      split: if_splits prod.splits sum.splits)

lemma tokenValueEnd_unread [simp]: "unread (tokenValueEnd dec) = unread dec"
  by (simp add: tokenValueEnd_def unread_def)

lemma Decode_unread:
  "Decode unmarshal dec st = (Inr v, dec', st') \<Longrightarrow> unread dec' < unread dec"
proof -
  assume d: "Decode unmarshal dec st = (Inr v, dec', st')"
  obtain r1 dec1 st1 where p: "tokenPrepareForDecode dec st = (r1, dec1, st1)"
    by (cases "tokenPrepareForDecode dec st") auto
  obtain r2 n dec2 st2 where rv: "readValue dec1 st1 = ((r2, n), dec2, st2)"
    by (cases "readValue dec1 st1") auto
  from d p rv have r2: "r2 = None" and dec': "dec' = tokenValueEnd (dec2\<lparr>buf := drop n (buf dec2)\<rparr>)"
    by (auto simp: Decode_def split: option.splits if_splits)
  have "sc_ok scanner_reset"
    by (simp add: sc_ok_def scanner_reset_def)
  from readValue_loop_progress [OF this _ _ rv [unfolded readValue_def]] r2
  have "unread dec2 = unread dec1" "1 \<le> n" "n \<le> length (buf dec2)"
    by (simp_all add: scanner_reset_def)
  moreover from this have "unread (dec2\<lparr>buf := drop n (buf dec2)\<rparr>) < unread dec2"
    by (simp add: unread_def)
  ultimately show ?thesis
    using tokenPrepareForDecode_unread [OF p] dec' by simp
qed

lemma More_unread: "More dec st = (b, dec', st') \<Longrightarrow> unread dec' \<le> unread dec"
  using peek_loop_unread [of None dec st]
  by (auto simp: More_def peek_def split: prod.splits sum.splits)

section \<open>\<^verbatim>\<open>ProcessBulkDataStream\<close>\<close>

text \<open>
  What \<^verbatim>\<open>json.Unmarshal\<close> returns for the bytes of a value, by the type of the
  destination: a variable of type \<^verbatim>\<open>any\<close>, a \<^verbatim>\<open>Card\<close>, an \<^verbatim>\<open>APIError\<close>, a
  \<^verbatim>\<open>CardBulkData\<close>, and the two list responses. The record types of \<^verbatim>\<open>models.go\<close>
  hold data only and no function of the package looks into them: they are the type
  parameters \<open>'c\<close> (\<^verbatim>\<open>Card\<close>), \<open>'b\<close> (\<^verbatim>\<open>CardBulkData\<close>) and \<open>'t\<close> (\<^verbatim>\<open>CardSet\<close>).
\<close>

record ('c, 'b, 't) Unmarshal =
  into_any :: "string \<Rightarrow> error option"
  into_Card :: "string \<Rightarrow> error + 'c"
  into_APIError :: "string \<Rightarrow> error + APIError"
  into_CardBulkData :: "string \<Rightarrow> error + 'b"
  into_BulkDataList :: "string \<Rightarrow> error + 'b list"
  into_SetList :: "string \<Rightarrow> error + 't list"

text \<open>
  \<^verbatim>\<open>
  for dec.More() {
      var card Card
      if err := dec.Decode(&card); err != nil {
          return fmt.Errorf("decode card object: %w", err)
      }
      if err := cardCallback(card); err != nil {
          return err
      }
  }
  \<close>
  The loop returns \<open>Some e\<close> where the function returns \<open>e\<close> from inside it.
\<close>

function ProcessBulkDataStream_loop ::
  "('c, 'b, 't) Unmarshal \<Rightarrow> ('s, 'c) cardCallback \<Rightarrow> 's Decoder \<Rightarrow> ('s, 'c) caller
     \<Rightarrow> error option \<times> 's Decoder \<times> ('s, 'c) caller"
  where
  "ProcessBulkDataStream_loop json cardCallback dec st =
     (case More dec st of
        (False, dec1, st1) \<Rightarrow> (None, dec1, st1)
      | (True, dec1, st1) \<Rightarrow>
          (case Decode (into_Card json) dec1 st1 of
             (Inl e, dec2, st2) \<Rightarrow> (Some (WrapError ''decode card object: '' e), dec2, st2)
           | (Inr c, dec2, st2) \<Rightarrow>
               (case call_cardCallback cardCallback c st2 of
                  (Some e, st3) \<Rightarrow> (Some e, dec2, st3)
                | (None, st3) \<Rightarrow> ProcessBulkDataStream_loop json cardCallback dec2 st3)))"
  by pat_completeness auto
termination
proof (relation "measure (\<lambda>(json, cb, dec, st). unread dec)")
  show "wf (measure (\<lambda>(json, cb, dec, st). unread dec))"
    by simp
qed (auto dest!: More_unread [OF sym] Decode_unread [OF sym])

declare ProcessBulkDataStream_loop.simps [simp del]

text \<open>
  \<^verbatim>\<open>
  func (c *Client) ProcessBulkDataStream(reader io.Reader, cardCallback func(Card) error) error {
      dec := json.NewDecoder(reader)
      t, err := dec.Token()
      if err != nil {
          return fmt.Errorf("decode opening bracket: %w", err)
      }
      if delim, ok := t.(json.Delim); !ok || delim != '[' {
          return fmt.Errorf("expected '[' at start of bulk data")
      }
      for dec.More() { ... }
      t, err = dec.Token()
      if err != nil {
          return fmt.Errorf("decode closing bracket: %w", err)
      }
      if delim, ok := t.(json.Delim); !ok || delim != ']' {
          return fmt.Errorf("expected ']' at end of bulk data")
      }
      return nil
  }
  \<close>
\<close>

definition ProcessBulkDataStream ::
  "('c, 'b, 't) Unmarshal \<Rightarrow> 's reader \<Rightarrow> ('s, 'c) cardCallback \<Rightarrow> ('s, 'c) caller
     \<Rightarrow> error option \<times> ('s, 'c) caller" where
  "ProcessBulkDataStream json rd cardCallback st =
     (case Token (into_any json) (NewDecoder rd) st of
        (Inl e, dec1, st1) \<Rightarrow> (Some (WrapError ''decode opening bracket: '' e), st1)
      | (Inr t, dec1, st1) \<Rightarrow>
          if t \<noteq> Delim CHR ''[''
          then (Some (ErrorString ''expected '[' at start of bulk data''), st1)
          else
            (case ProcessBulkDataStream_loop json cardCallback dec1 st1 of
               (Some e, dec2, st2) \<Rightarrow> (Some e, st2)
             | (None, dec2, st2) \<Rightarrow>
                 (case Token (into_any json) dec2 st2 of
                    (Inl e, dec3, st3) \<Rightarrow> (Some (WrapError ''decode closing bracket: '' e), st3)
                  | (Inr t, dec3, st3) \<Rightarrow>
                      if t \<noteq> Delim CHR '']''
                      then (Some (ErrorString ''expected ']' at end of bulk data''), st3)
                      else (None, st3))))"

section \<open>The client and the world around it\<close>

text \<open>
  A \<^verbatim>\<open>context.Context\<close> is either the background context or one the caller made;
  \<open>None\<close> is the nil context.
\<close>

datatype ctx = Background | CallerContext nat

record request =
  req_ctx :: ctx
  Method :: string
  URL :: string
  Header :: "(string \<times> string) list"

record response =
  resp_StatusCode :: int
  resp_ContentLength :: int
  resp_Body :: body

text \<open>
  \<^verbatim>\<open>Client\<close>. The HTTP client is given by what \<^verbatim>\<open>Do\<close> returns for a request, the
  limiter by what \<^verbatim>\<open>Wait\<close> returns for a context, the base URL by its text. The
  logger is left out: logging has no effect on what the functions return.
\<close>

record Client =
  httpClient :: "request \<Rightarrow> error + response"
  baseURL :: string
  limiter :: "ctx \<Rightarrow> error option"
  userAgent :: string

text \<open>
  What the outside sees of a run: how often the limiter was waited on, the HTTP
  requests performed, and the files written.
\<close>

record world =
  waits :: nat
  requests :: "request list"
  files :: "string \<Rightarrow> string option"

text \<open>
  Functions of the Go standard library the package calls, as parameters:
  \<^verbatim>\<open>url.Parse\<close> (its error), \<^verbatim>\<open>(*URL).ResolveReference\<close> followed by \<^verbatim>\<open>String\<close>,
  the error of \<^verbatim>\<open>http.NewRequestWithContext\<close> for a URL, the verb \<^verbatim>\<open>%q\<close>,
  \<^verbatim>\<open>filepath.Clean\<close> and the error of \<^verbatim>\<open>os.Create\<close>.
\<close>

record golib =
  url_Parse :: "string \<Rightarrow> error option"
  ResolveReference :: "string \<Rightarrow> string \<Rightarrow> string"
  NewRequest_error :: "string \<Rightarrow> error option"
  quote :: "string \<Rightarrow> string"
  filepath_Clean :: "string \<Rightarrow> string"
  os_Create :: "string \<Rightarrow> error option"

definition NewRequestWithContext :: "golib \<Rightarrow> ctx \<Rightarrow> string \<Rightarrow> string \<Rightarrow> error + request" where
  "NewRequestWithContext lib cx method url =
     (case NewRequest_error lib url of
        Some e \<Rightarrow> Inl e
      | None \<Rightarrow> Inr \<lparr>req_ctx = cx, Method = method, URL = url, Header = []\<rparr>)"

definition Header_Set :: "request \<Rightarrow> string \<Rightarrow> string \<Rightarrow> request" where
  "Header_Set req k v = req\<lparr>Header := (k, v) # filter (\<lambda>kv. fst kv \<noteq> k) (Header req)\<rparr>"

definition Do :: "Client \<Rightarrow> request \<Rightarrow> world \<Rightarrow> (error + response) \<times> world" where
  "Do c req w = (httpClient c req, w\<lparr>requests := requests w @ [req]\<rparr>)"

definition limiter_Wait :: "Client \<Rightarrow> ctx \<Rightarrow> world \<Rightarrow> error option \<times> world" where
  "limiter_Wait c cx w = (limiter c cx, w\<lparr>waits := Suc (waits w)\<rparr>)"

definition ctx_or_Background :: "ctx option \<Rightarrow> ctx" where
  \<comment> \<open>\<^verbatim>\<open>if ctx == nil { ctx = context.Background() }\<close>\<close>
  "ctx_or_Background cx = (case cx of None \<Rightarrow> Background | Some x \<Rightarrow> x)"

text \<open>\<^verbatim>\<open>io.ReadAll\<close>: reads to the first error; \<^verbatim>\<open>io.EOF\<close> is not reported.\<close>

fun io_ReadAll :: "body \<Rightarrow> string \<times> error option" where
  "io_ReadAll [] = ([], None)"
| "io_ReadAll ((p, e) # b) =
     (case e of
        None \<Rightarrow> (case io_ReadAll b of (data, e') \<Rightarrow> (p @ data, e'))
      | Some e' \<Rightarrow> (p, if e' = EOF then None else Some e'))"

section \<open>Endpoint operations\<close>

text \<open>
  \<^verbatim>\<open>
  func decodeAPIError(r io.Reader) (*APIError, error) {
      body, err := io.ReadAll(r)
      if err != nil { return nil, err }
      if len(body) == 0 { return &APIError{}, nil }
      var apiErr APIError
      if err := json.Unmarshal(body, &apiErr); err != nil { return nil, err }
      return &apiErr, nil
  }
  \<close>
\<close>

definition decodeAPIError :: "('c, 'b, 't) Unmarshal \<Rightarrow> body \<Rightarrow> error + APIError" where
  "decodeAPIError json r =
     (case io_ReadAll r of
        (data, Some e) \<Rightarrow> Inl e
      | (data, None) \<Rightarrow>
          if length data = 0
          then Inr \<lparr>StatusCode = 0, Details = [], Type = [], Warnings = []\<rparr>
          else into_APIError json data)"

text \<open>
  \<^verbatim>\<open>get\<close>; \<open>unmarshal\<close> stands for \<^verbatim>\<open>json.Unmarshal(body, dest)\<close> at the type of
  \<^verbatim>\<open>dest\<close>.
\<close>

definition get ::
  "golib \<Rightarrow> ('c, 'b, 't) Unmarshal \<Rightarrow> Client \<Rightarrow> ctx option \<Rightarrow> string \<Rightarrow> (string \<Rightarrow> error + 'a)
     \<Rightarrow> world \<Rightarrow> (error + 'a) \<times> world" where
  "get lib json c cx path unmarshal w =
     (case limiter_Wait c (ctx_or_Background cx) w of
        (Some e, w1) \<Rightarrow> (Inl (WrapError ''wait for rate limiter: '' e), w1)
      | (None, w1) \<Rightarrow>
          (case url_Parse lib path of
             Some e \<Rightarrow> (Inl (WrapError (''invalid path '' @ quote lib path @ '': '') e), w1)
           | None \<Rightarrow>
               (case NewRequestWithContext lib (ctx_or_Background cx) ''GET''
                       (ResolveReference lib (baseURL c) path) of
                  Inl e \<Rightarrow> (Inl (WrapError ''create request: '' e), w1)
                | Inr req0 \<Rightarrow>
                    (case Do c (Header_Set (Header_Set req0 ''Accept'' ''application/json'')
                                  ''User-Agent'' (userAgent c)) w1 of
                       (Inl e, w2) \<Rightarrow> (Inl (WrapError ''perform request: '' e), w2)
                     | (Inr resp, w2) \<Rightarrow>
                         if resp_StatusCode resp \<ge> 400 then
                           (case decodeAPIError json (resp_Body resp) of
                              Inl readErr \<Rightarrow>
                                (Inl (WrapError (''scryfall error status ''
                                        @ itoa (resp_StatusCode resp) @ '': '') readErr), w2)
                            | Inr apiErr \<Rightarrow>
                                (Inl (APIErr (apiErr\<lparr>StatusCode := resp_StatusCode resp\<rparr>)), w2))
                         else
                           (case io_ReadAll (resp_Body resp) of
                              (data, Some e) \<Rightarrow> (Inl (WrapError ''read response body: '' e), w2)
                            | (data, None) \<Rightarrow>
                                (case unmarshal data of
                                   Inl e \<Rightarrow> (Inl (WrapError ''decode response: '' e), w2)
                                 | Inr v \<Rightarrow> (Inr v, w2)))))))"

definition GetCardByID ::
  "golib \<Rightarrow> ('c, 'b, 't) Unmarshal \<Rightarrow> Client \<Rightarrow> ctx option \<Rightarrow> string \<Rightarrow> world
     \<Rightarrow> (error + 'c) \<times> world" where
  "GetCardByID lib json c cx card_id w =
     (if card_id = [] then (Inl (ErrorString ''card id is required''), w)
      else get lib json c cx (''/cards/'' @ card_id) (into_Card json) w)"

definition ListBulkData ::
  "golib \<Rightarrow> ('c, 'b, 't) Unmarshal \<Rightarrow> Client \<Rightarrow> ctx option \<Rightarrow> world
     \<Rightarrow> (error + 'b list) \<times> world" where
  "ListBulkData lib json c cx w = get lib json c cx ''/bulk-data'' (into_BulkDataList json) w"

definition ListSets ::
  "golib \<Rightarrow> ('c, 'b, 't) Unmarshal \<Rightarrow> Client \<Rightarrow> ctx option \<Rightarrow> world
     \<Rightarrow> (error + 't list) \<times> world" where
  "ListSets lib json c cx w = get lib json c cx ''/sets'' (into_SetList json) w"

definition GetBulkDataByType ::
  "golib \<Rightarrow> ('c, 'b, 't) Unmarshal \<Rightarrow> Client \<Rightarrow> ctx option \<Rightarrow> string \<Rightarrow> world
     \<Rightarrow> (error + 'b) \<times> world" where
  "GetBulkDataByType lib json c cx bulkType w =
     (if bulkType = [] then (Inl (ErrorString ''bulk type is required''), w)
      else get lib json c cx (''/bulk-data/'' @ bulkType) (into_CardBulkData json) w)"

section \<open>Bulk download\<close>

text \<open>
  The reader both download functions build:
  \<^verbatim>\<open>
  var reader io.Reader = resp.Body
  if progressFn != nil {
      reader = &progressReader{ReadCloser: resp.Body, Total: resp.ContentLength, OnRead: progressFn}
  }
  \<close>
\<close>

definition response_reader :: "response \<Rightarrow> 's ProgressFunc option \<Rightarrow> 's reader" where
  "response_reader resp progressFn =
     (case progressFn of
        None \<Rightarrow> BodyReader (resp_Body resp)
      | Some f \<Rightarrow>
          ProgressReader \<lparr>ReadCloser = resp_Body resp, Total = resp_ContentLength resp,
                          Current = 0, OnRead = Some f\<rparr>)"

text \<open>
  \<^verbatim>\<open>DownloadBulkDataStream\<close>: no limiter here. Closing the response body (deferred in
  the source) has no effect the model keeps.
\<close>

definition DownloadBulkDataStream ::
  "golib \<Rightarrow> ('c, 'b, 't) Unmarshal \<Rightarrow> Client \<Rightarrow> ctx option \<Rightarrow> string \<Rightarrow> ('s, 'c) cardCallback
     \<Rightarrow> 's ProgressFunc option \<Rightarrow> world \<Rightarrow> ('s, 'c) caller
     \<Rightarrow> error option \<times> world \<times> ('s, 'c) caller" where
  "DownloadBulkDataStream lib json c cx downloadURI cardCallback progressFn w st =
     (if downloadURI = [] then (Some (ErrorString ''download URI is required''), w, st)
      else
        (case NewRequestWithContext lib (ctx_or_Background cx) ''GET'' downloadURI of
           Inl e \<Rightarrow> (Some (WrapError ''create request: '' e), w, st)
         | Inr req0 \<Rightarrow>
             (case Do c (Header_Set (Header_Set req0 ''Accept'' ''application/json'')
                           ''User-Agent'' (userAgent c)) w of
                (Inl e, w1) \<Rightarrow> (Some (WrapError ''perform request: '' e), w1, st)
              | (Inr resp, w1) \<Rightarrow>
                  if resp_StatusCode resp \<ge> 400
                  then (Some (ErrorString (''download failed with status ''
                                @ itoa (resp_StatusCode resp))), w1, st)
                  else
                    (case ProcessBulkDataStream json (response_reader resp progressFn)
                            cardCallback st of
                       (e, st') \<Rightarrow> (e, w1, st')))))"

text \<open>
  \<^verbatim>\<open>io.Copy\<close> from a reader that is neither a \<^verbatim>\<open>WriterTo\<close> nor a file: it reads
  until the first error and writes what each read returned; \<^verbatim>\<open>io.EOF\<close> is not
  reported. Writes to the created file are taken to succeed.
\<close>

lemma Read_nil_pending:
  "Read src st = ((p, None), src', st') \<Longrightarrow> length (pending src') < length (pending src)"
  by (auto simp: Read_def progressReader_Read_def body_Read_def pending_def Let_def
      split: reader.splits list.splits prod.splits option.splits)

function io_Copy ::
  "'s reader \<Rightarrow> string \<Rightarrow> ('s, 'c) caller \<Rightarrow> (string \<times> error option) \<times> ('s, 'c) caller" where
  "io_Copy src written st =
     (case Read src st of
        ((p, e), src', st') \<Rightarrow>
          (case e of
             Some er \<Rightarrow> ((written @ p, if er = EOF then None else Some er), st')
           | None \<Rightarrow> io_Copy src' (written @ p) st'))"
  by pat_completeness auto
termination
proof (relation "measure (\<lambda>(src, written, st). length (pending src))")
  show "wf (measure (\<lambda>(src, written, st). length (pending src)))"
    by simp
qed (auto dest!: Read_nil_pending [OF sym])

declare io_Copy.simps [simp del]

text \<open>\<^verbatim>\<open>DownloadToFile\<close>.\<close>

definition DownloadToFile ::
  "golib \<Rightarrow> Client \<Rightarrow> ctx option \<Rightarrow> string \<Rightarrow> string \<Rightarrow> 's ProgressFunc option
     \<Rightarrow> world \<Rightarrow> ('s, 'c) caller \<Rightarrow> error option \<times> world \<times> ('s, 'c) caller" where
  "DownloadToFile lib c cx downloadURI filePath progress w st =
     (if downloadURI = [] then (Some (ErrorString ''download URI is required''), w, st)
      else
        (case NewRequestWithContext lib (ctx_or_Background cx) ''GET'' downloadURI of
           Inl e \<Rightarrow> (Some (WrapError ''create request: '' e), w, st)
         | Inr req0 \<Rightarrow>
             (case Do c (Header_Set (Header_Set req0 ''Accept'' ''application/json'')
                           ''User-Agent'' (userAgent c)) w of
                (Inl e, w1) \<Rightarrow> (Some (WrapError ''perform request: '' e), w1, st)
              | (Inr resp, w1) \<Rightarrow>
                  if resp_StatusCode resp \<ge> 400
                  then (Some (ErrorString (''download failed with status ''
                                @ itoa (resp_StatusCode resp))), w1, st)
                  else
                    (case os_Create lib (filepath_Clean lib filePath) of
                       Some e \<Rightarrow> (Some (WrapError ''create file: '' e), w1, st)
                     | None \<Rightarrow>
                         (case io_Copy (response_reader resp progress) [] st of
                            ((written, e), st') \<Rightarrow>
                              (case e of
                                 Some e' \<Rightarrow> Some (WrapError ''copy to file: '' e')
                               | None \<Rightarrow> None,
                               w1\<lparr>files := (files w1)(filepath_Clean lib filePath \<mapsto> written)\<rparr>,
                               st'))))))"

text \<open>
  \<^verbatim>\<open>
  func (c *Client) DownloadBulkData(ctx context.Context, downloadURI string) ([]Card, error) {
      var cards []Card
      err := c.DownloadBulkDataStream(ctx, downloadURI, func(card Card) error {
          cards = append(cards, card)
          return nil
      }, nil)
      return cards, err
  }
  \<close>
  The variable the callback closes over is \<open>cards\<close>.
\<close>

definition append_card :: "('c list, 'c) cardCallback" where
  "append_card c cards = (None, cards @ [c])"

definition DownloadBulkData ::
  "golib \<Rightarrow> ('c, 'b, 't) Unmarshal \<Rightarrow> Client \<Rightarrow> ctx option \<Rightarrow> string \<Rightarrow> world
     \<Rightarrow> ('c list \<times> error option) \<times> world" where
  "DownloadBulkData lib json c cx downloadURI w =
     (case DownloadBulkDataStream lib json c cx downloadURI append_card None w
             \<lparr>vars = [], calls = []\<rparr> of
        (e, w', st') \<Rightarrow> ((vars st', e), w'))"

section \<open>Notions the statements use\<close>

text \<open>The request the two download functions send, and the one \<^verbatim>\<open>get\<close> sends.\<close>

definition download_request :: "Client \<Rightarrow> ctx option \<Rightarrow> string \<Rightarrow> request" where
  "download_request c cx downloadURI =
     \<lparr>req_ctx = ctx_or_Background cx, Method = ''GET'', URL = downloadURI,
      Header = [(''User-Agent'', userAgent c), (''Accept'', ''application/json'')]\<rparr>"

definition api_request :: "golib \<Rightarrow> Client \<Rightarrow> ctx option \<Rightarrow> string \<Rightarrow> request" where
  "api_request lib c cx path =
     download_request c cx (ResolveReference lib (baseURL c) path)"

text \<open>
  \<open>k\<close> calls of \<^verbatim>\<open>Read\<close> in a row, as a consumer of the reader makes them, with what
  they returned; and the number of bytes a list of reads returned.
\<close>

fun Read_n ::
  "nat \<Rightarrow> 's reader \<Rightarrow> ('s, 'c) caller \<Rightarrow> read_result list \<times> 's reader \<times> ('s, 'c) caller" where
  "Read_n 0 rd st = ([], rd, st)"
| "Read_n (Suc k) rd st =
     (case Read rd st of
        (res, rd', st') \<Rightarrow>
          (case Read_n k rd' st' of (rs, rd'', st'') \<Rightarrow> (res # rs, rd'', st'')))"

definition bytes_read :: "read_result list \<Rightarrow> nat" where
  "bytes_read rs = sum_list (map (\<lambda>res. length (fst res)) rs)"

text \<open>
  The reader is the response body itself (no progress callback); a step of the decoder
  that runs no record callback and, on the body itself, no callback at all; the
  caller's variables after a list of record calls; and the shape of the record calls
  of one run: no call but the last returned an error, and an error of the last call is
  what the run returns.
\<close>

definition plain :: "'s reader \<Rightarrow> bool" where
  "plain rd = (case rd of BodyReader b \<Rightarrow> True | ProgressReader r \<Rightarrow> False)"

definition quiet :: "'s reader \<Rightarrow> ('s, 'c) caller \<Rightarrow> 's reader \<Rightarrow> ('s, 'c) caller \<Rightarrow> bool" where
  "quiet rd st rd' st' \<longleftrightarrow>
     card_calls (calls st') = card_calls (calls st) \<and> plain rd' = plain rd \<and>
     (plain rd \<longrightarrow> st' = st)"

definition after_calls :: "('s, 'c) cardCallback \<Rightarrow> 's \<Rightarrow> ('c \<times> error option) list \<Rightarrow> 's" where
  "after_calls cb s new = foldl (\<lambda>s x. snd (cb (fst x) s)) s new"

definition calls_ok :: "('c \<times> error option) list \<Rightarrow> error option \<Rightarrow> bool" where
  "calls_ok new res \<longleftrightarrow>
     (\<forall>x \<in> set (butlast new). snd x = None) \<and>
     (\<forall>e. new \<noteq> [] \<and> snd (last new) = Some e \<longrightarrow> res = Some e)"

text \<open>
  A well-formed array, written out. \<open>spaces w\<close>: \<open>w\<close> is JSON whitespace only.
  \<open>value_text v\<close>: \<open>v\<close> starts with a byte that is not a space, and the scanner of
  \<^verbatim>\<open>encoding/json\<close>, fed \<open>v\<close>, reports the end of one value on the last byte of \<open>v\<close>
  and neither an end nor an error before: \<open>v\<close> is the text of one JSON object or array.
  An element of an array is given as \<open>(a, b, v)\<close>: the whitespace before the separator,
  the whitespace after it and the text of the value; the first element has no
  separator, the others a comma. \<open>record_texts unmarshal first es cards\<close>: each element
  of \<open>es\<close> is such a text and \<^verbatim>\<open>json.Unmarshal\<close> decodes it to the record at the same
  place in \<open>cards\<close>. (The bytes \<^verbatim>\<open>Decode\<close> hands to \<^verbatim>\<open>json.Unmarshal\<close> start after
  the separator, so for all elements but the first they include the whitespace \<open>b\<close>.)
\<close>

definition spaces :: "string \<Rightarrow> bool" where
  "spaces w = list_all isSpace w"

definition value_text :: "string \<Rightarrow> bool" where
  "value_text v \<longleftrightarrow>
     v \<noteq> [] \<and> \<not> isSpace (hd v) \<and> scan_bytes scanner_reset 0 v = ScanDone (length v)"

definition separator :: "bool \<Rightarrow> string" where
  "separator first = (if first then [] else '','')"

fun elems_text :: "bool \<Rightarrow> (string \<times> string \<times> string) list \<Rightarrow> string" where
  "elems_text first [] = []"
| "elems_text first ((a, b, v) # es) = a @ separator first @ b @ v @ elems_text False es"

fun record_texts ::
  "(string \<Rightarrow> error + 'c) \<Rightarrow> bool \<Rightarrow> (string \<times> string \<times> string) list \<Rightarrow> 'c list \<Rightarrow> bool" where
  "record_texts unmarshal first [] cards \<longleftrightarrow> cards = []"
| "record_texts unmarshal first ((a, b, v) # es) cards \<longleftrightarrow>
     (case cards of
        [] \<Rightarrow> False
      | c # cs \<Rightarrow>
          spaces a \<and> spaces b \<and> value_text v \<and>
          unmarshal ((if first then [] else b) @ v) = Inr c \<and>
          record_texts unmarshal False es cs)"

text \<open>
  A stream, as the decoder meets it: the bytes its reads return up to the first read
  that returns an error, the bytes of that read included (\<^verbatim>\<open>Read\<close> may return the
  last bytes together with \<^verbatim>\<open>io.EOF\<close>, or with \<^verbatim>\<open>nil\<close> and \<^verbatim>\<open>io.EOF\<close> on the next
  call); that first error, which is \<^verbatim>\<open>io.EOF\<close> once the reads are used up; and a
  stream that ends there: the first error is \<^verbatim>\<open>io.EOF\<close>, and every read after it
  returns no bytes and \<^verbatim>\<open>io.EOF\<close> again.
\<close>

fun delivered :: "body \<Rightarrow> string" where
  "delivered [] = []"
| "delivered ((p, e) # b) = (case e of None \<Rightarrow> p @ delivered b | Some e' \<Rightarrow> p)"

fun first_error :: "body \<Rightarrow> error" where
  "first_error [] = EOF"
| "first_error ((p, e) # b) = (case e of None \<Rightarrow> first_error b | Some e' \<Rightarrow> e')"

fun ends :: "body \<Rightarrow> bool" where
  "ends [] = True"
| "ends ((p, e) # b) =
     (case e of
        None \<Rightarrow> ends b
      | Some e' \<Rightarrow> e' = EOF \<and> list_all (\<lambda>r. r = ([], Some EOF)) b)"

text \<open>
  For the proofs: the decoder has the text \<open>str\<close> ahead of it, in its buffer \<open>b\<close> and
  in what \<open>rd\<close> still delivers; with \<open>ex\<close>, the stream ends and \<open>str\<close> is all there is.
  And the token state inside an array, before its first element or after an element.
\<close>

definition ahead :: "bool \<Rightarrow> 's reader \<Rightarrow> string \<Rightarrow> string \<Rightarrow> bool" where
  "ahead ex rd b str \<longleftrightarrow>
     (\<exists>tail. b @ delivered (pending rd) = str @ tail \<and> (ex \<longrightarrow> tail = [] \<and> ends (pending rd)))"

definition array_state :: "bool \<Rightarrow> tstate" where
  "array_state first = (if first then tokenArrayStart else tokenArrayComma)"

text \<open>
  \<open>rejected unmarshal first b x e\<close>: decoding the element text \<open>x\<close> fails with \<open>e\<close>.
  Either the scanner, fed \<open>x\<close>, reports the syntax error \<open>e\<close> (whatever follows \<open>x\<close>
  in the stream), or \<open>x\<close> is the text of a value and \<^verbatim>\<open>json.Unmarshal\<close> returns \<open>e\<close>
  for it.
\<close>

definition rejected ::
  "(string \<Rightarrow> error + 'c) \<Rightarrow> bool \<Rightarrow> string \<Rightarrow> string \<Rightarrow> error \<Rightarrow> bool" where
  "rejected unmarshal first b x e \<longleftrightarrow>
     scan_bytes scanner_reset 0 x = ScanFail (Some e) \<or>
     value_text x \<and> unmarshal ((if first then [] else b) @ x) = Inl e"

text \<open>
  \<open>decode_fails unmarshal z ended e\<close>: \<^verbatim>\<open>Decode\<close>, with the text \<open>z\<close> before it where a
  value is to begin, fails with \<open>e\<close>. \<open>z\<close> is all the stream still delivers, and
  \<open>ended\<close> tells whether the stream ends after it. The scanner rejects a byte of \<open>z\<close>;
  or it sees the end of a value after \<open>n\<close> bytes (for a number or literal: at the byte
  that follows) and \<^verbatim>\<open>json.Unmarshal\<close> returns \<open>e\<close> for these bytes; or the stream ends
  inside the value (\<^verbatim>\<open>io.ErrUnexpectedEOF\<close>; \<^verbatim>\<open>io.EOF\<close> when \<open>z\<close> is whitespace only),
  or right after a number or literal that \<^verbatim>\<open>json.Unmarshal\<close> rejects.
\<close>

definition decode_fails :: "(string \<Rightarrow> error + 'c) \<Rightarrow> string \<Rightarrow> bool \<Rightarrow> error \<Rightarrow> bool" where
  "decode_fails unmarshal z ended e \<longleftrightarrow>
     (case scan_bytes scanner_reset 0 z of
        ScanFail e' \<Rightarrow> e' = Some e
      | ScanDone n \<Rightarrow> unmarshal (take n z) = Inl e
      | ScanMore sc n \<Rightarrow>
          ended \<and>
          (if fst (scanner_step sc CHR '' '') = scanEnd then unmarshal z = Inl e
           else e = (if nonSpace z then ErrUnexpectedEOF else EOF)))"

section \<open>Concrete inputs\<close>

text \<open>
  A library whose functions never fail; a decoding of records that accepts every JSON
  object and keeps its text; the body of the rate-limit error of the API (with the
  newline \<^verbatim>\<open>json.Encoder\<close> adds).
\<close>

definition demo_lib :: golib where
  "demo_lib =
     \<lparr>url_Parse = (\<lambda>s. None), ResolveReference = (\<lambda>b p. b @ p),
      NewRequest_error = (\<lambda>u. None), quote = (\<lambda>s. s), filepath_Clean = (\<lambda>p. p),
      os_Create = (\<lambda>p. None)\<rparr>"

definition slow_down_body :: string where
  \<open>slow_down_body = ''{"details":"slow down","type":"rate_limited"}'' @ [CHR 0x0A]\<close>

definition demo_into_Card :: "string \<Rightarrow> error + string" where
  "demo_into_Card b =
     (case dropWhile isSpace b of
        [] \<Rightarrow> Inl (ErrorString ''unexpected end of JSON input'')
      | c # cs \<Rightarrow>
          if c = CHR ''{'' then Inr (c # cs)
          else Inl (ErrorString ''json: cannot unmarshal into Go value of type scryfall.Card''))"

text \<open>
  A decoding of the error body: it accepts a JSON object whose members are string
  literals without escapes, with any whitespace around the tokens, and keeps the
  members \<^verbatim>\<open>details\<close> and \<^verbatim>\<open>type\<close>. The text is cut into tokens first.
\<close>

datatype demo_tok = Punct char | Str string

fun demo_lex :: "string option \<Rightarrow> string \<Rightarrow> demo_tok list option" where
  "demo_lex None [] = Some []"
| "demo_lex (Some s) [] = None"
| "demo_lex None (c # cs) =
     (if isSpace c then demo_lex None cs
      else if c = CHR 0x22 then demo_lex (Some []) cs
      else if c \<in> set ''{}:,'' then map_option ((#) (Punct c)) (demo_lex None cs)
      else None)"
| "demo_lex (Some s) (c # cs) =
     (if c = CHR 0x22 then map_option ((#) (Str s)) (demo_lex None cs)
      else demo_lex (Some (s @ [c])) cs)"

fun demo_members :: "demo_tok list \<Rightarrow> (string \<times> string) list option" where
  "demo_members (Str k # Punct c1 # Str v # Punct c2 # ts) =
     (if c1 \<noteq> CHR '':'' then None
      else if c2 = CHR ''}'' \<and> ts = [] then Some [(k, v)]
      else if c2 = CHR '','' then map_option ((#) (k, v)) (demo_members ts)
      else None)"
| "demo_members ts = None"

definition demo_object :: "demo_tok list \<Rightarrow> (string \<times> string) list option" where
  "demo_object ts =
     (if ts = [Punct CHR ''{'', Punct CHR ''}''] then Some []
      else (case ts of
              Punct c # ts' \<Rightarrow> if c = CHR ''{'' then demo_members ts' else None
            | _ \<Rightarrow> None))"

definition demo_field :: "(string \<times> string) list \<Rightarrow> string \<Rightarrow> string" where
  "demo_field kvs k = (case map_of kvs k of None \<Rightarrow> [] | Some v \<Rightarrow> v)"

definition demo_into_APIError :: "string \<Rightarrow> error + APIError" where
  "demo_into_APIError b =
     (case Option.bind (demo_lex None b) demo_object of
        None \<Rightarrow> Inl (ErrorString ''json: cannot unmarshal into Go value of type scryfall.APIError'')
      | Some kvs \<Rightarrow>
          Inr \<lparr>StatusCode = 0, Details = demo_field kvs ''details'',
               Type = demo_field kvs ''type'', Warnings = []\<rparr>)"

definition demo_json :: "(string, string, string) Unmarshal" where
  "demo_json =
     \<lparr>into_any = (\<lambda>b. None),
      into_Card = demo_into_Card,
      into_APIError = demo_into_APIError,
      into_CardBulkData = (\<lambda>b. Inr b),
      into_BulkDataList = (\<lambda>b. Inr [b]),
      into_SetList = (\<lambda>b. Inr [b])\<rparr>"

text \<open>A server that answers every request with the given status and body.\<close>

definition demo_client :: "int \<Rightarrow> body \<Rightarrow> Client" where
  "demo_client status b =
     \<lparr>httpClient = (\<lambda>req. Inr \<lparr>resp_StatusCode = status,
                                resp_ContentLength = int (bytes_read b), resp_Body = b\<rparr>),
      baseURL = ''https://api.scryfall.com'', limiter = (\<lambda>cx. None),
      userAgent = ''repricah-scryfall/0.1''\<rparr>"

definition demo_world :: world where
  "demo_world = \<lparr>waits = 0, requests = [], files = Map.empty\<rparr>"

definition demo_caller :: "(unit, string) caller" where
  "demo_caller = \<lparr>vars = (), calls = []\<rparr>"

definition demo_progress :: "unit ProgressFunc" where
  "demo_progress current tot s = s"

definition demo_callback :: "(unit, string) cardCallback" where
  "demo_callback c s = (None, s)"


text \<open>Two records in two chunks, as \<^verbatim>\<open>json.Encoder\<close> writes them but for one space.\<close>

definition two_cards_body :: body where
  \<open>two_cards_body = [(''[{"id":"a"}'', None), ('', {"id":"b"}]'' @ [CHR 0x0A], None)]\<close>

definition two_cards_elems :: "(string \<times> string \<times> string) list" where
  \<open>two_cards_elems = [([], [], ''{"id":"a"}''), ([], '' '', ''{"id":"b"}'')]\<close>

text \<open>One record, then an element the scanner rejects at its \<^verbatim>\<open>]\<close>.\<close>

definition broken_body :: body where
  \<open>broken_body = [(''[{"id":"a"},{"i'', None), (''d":]}]'', None)]\<close>

text \<open>
  The two records again, the last bytes arriving together with \<^verbatim>\<open>io.EOF\<close>; and a
  stream that ends inside its second record.
\<close>

definition two_cards_eof :: body where
  \<open>two_cards_eof = [(''[{"id":"a"}'', None), ('', {"id":"b"}]'', Some EOF)]\<close>

definition cut_body :: body where
  \<open>cut_body = [(''[{"id":"a"},{"i'', Some EOF)]\<close>

text \<open>A response whose body arrives in two chunks.\<close>

definition two_chunks :: response where
  "two_chunks = \<lparr>resp_StatusCode = 200, resp_ContentLength = 3,
                 resp_Body = [(''ab'', None), (''c'', None)]\<rparr>"

section \<open>Properties\<close>

subsection \<open>Helper facts\<close>

lemma card_calls_append [simp]: "card_calls (xs @ ys) = card_calls xs @ card_calls ys"
  by (induction xs rule: card_calls.induct) simp_all

lemma progress_calls_append [simp]:
  "progress_calls (xs @ ys) = progress_calls xs @ progress_calls ys"
  by (induction xs rule: progress_calls.induct) simp_all

lemma int64_id: "- (2 ^ 63) \<le> x \<Longrightarrow> x < 2 ^ 63 \<Longrightarrow> int64 x = x"
  by (simp add: int64_def)

lemma progressReader_Read_effect:
  assumes "progressReader_Read r st = ((p, e), r', st')" and "OnRead r = Some f"
  shows "Current r' = int64 (Current r + int (length p))"
    and "Total r' = Total r" and "OnRead r' = Some f"
    and "calls st' = calls st @ [OnReadCall (Current r') (Total r)]"
    and "bytes_read (ReadCloser r) = length p + bytes_read (ReadCloser r')"
  using assms
  by (auto simp: progressReader_Read_def body_Read_def call_OnRead_def bytes_read_def Let_def
      split: list.splits prod.splits)

lemma Read_n_progress:
  assumes "Read_n k (ProgressReader r) st = (results, rd', st')"
    and "OnRead r = Some f"
    and "0 \<le> Current r"
    and "Current r + int (bytes_read (ReadCloser r)) < 2 ^ 63"
  shows "progress_calls (calls st') = progress_calls (calls st) @
           map (\<lambda>i. (Current r + int (bytes_read (take (Suc i) results)), Total r)) [0..<k]"
  using assms
proof (induction k arbitrary: r st results rd' st')
  case 0
  then show ?case by simp
next
  case (Suc k)
  obtain p e r1 st1 where rd: "progressReader_Read r st = ((p, e), r1, st1)"
    by (cases "progressReader_Read r st") auto
  obtain rs rd2 st2 where rest: "Read_n k (ProgressReader r1) st1 = (rs, rd2, st2)"
    by (cases "Read_n k (ProgressReader r1) st1") auto
  from Suc.prems(1) rd rest have res: "results = (p, e) # rs" and st': "st' = st2"
    by (simp_all add: Read_def)
  note eff = progressReader_Read_effect [OF rd Suc.prems(2)]
  have cur1: "Current r1 = Current r + int (length p)"
    using eff(1,5) Suc.prems(3,4) by (simp add: int64_id)
  have "progress_calls (calls st2) = progress_calls (calls st1) @
          map (\<lambda>i. (Current r1 + int (bytes_read (take (Suc i) rs)), Total r1)) [0..<k]"
    using Suc.IH [OF rest eff(3)] cur1 eff(5) Suc.prems(3,4) by simp
  also have "progress_calls (calls st1) = progress_calls (calls st) @ [(Current r1, Total r)]"
    using eff(4) by simp
  finally show ?case
    using cur1 eff(2) res st'
    by (simp add: upt_rec [of 0 "Suc k"] map_Suc_upt [symmetric] bytes_read_def del: upt_Suc)
qed

lemma Read_n_length: "Read_n k rd st = (results, rd', st') \<Longrightarrow> length results = k"
  by (induction k arbitrary: rd st results) (auto split: prod.splits)

lemma bytes_read_take_mono: "i \<le> j \<Longrightarrow> bytes_read (take i rs) \<le> bytes_read (take j rs)"
proof -
  assume "i \<le> j"
  then have "take j rs = take i rs @ take (j - i) (drop i rs)"
    by (metis le_add_diff_inverse take_add)
  then show ?thesis by (simp add: bytes_read_def)
qed

lemma io_ReadAll_delivered:
  "io_ReadAll b = (delivered b, if first_error b = EOF then None else Some (first_error b))"
  by (induction b) (auto split: option.splits)

subsection \<open>Empty arguments\<close>

text \<open>
  C6. Each operation that takes an id, a type tag or a download location returns its
  "is required" error when that argument is the empty string, and the world is as it
  was before the call: the limiter was not waited on, no request was sent, no callback
  ran. The operations are \<^verbatim>\<open>GetCardByID\<close>, \<^verbatim>\<open>GetBulkDataByType\<close>,
  \<^verbatim>\<open>DownloadBulkDataStream\<close>, \<^verbatim>\<open>DownloadToFile\<close> and \<^verbatim>\<open>DownloadBulkData\<close>.
\<close>

theorem empty_argument_fails_before_any_call:
  "GetCardByID lib json c cx [] w = (Inl (ErrorString ''card id is required''), w) \<and>
   GetBulkDataByType lib json c cx [] w = (Inl (ErrorString ''bulk type is required''), w) \<and>
   DownloadBulkDataStream lib json c cx [] cardCallback progressFn w st
     = (Some (ErrorString ''download URI is required''), w, st) \<and>
   DownloadToFile lib c cx [] filePath progressFn w st
     = (Some (ErrorString ''download URI is required''), w, st) \<and>
   DownloadBulkData lib json c cx [] w
     = (([], Some (ErrorString ''download URI is required'')), w)"
  by (simp add: GetCardByID_def GetBulkDataByType_def DownloadBulkDataStream_def
      DownloadToFile_def DownloadBulkData_def)

subsection \<open>Error statuses\<close>

text \<open>
  C8. When the response to a bulk download has a status of 400 or more,
  \<^verbatim>\<open>DownloadBulkDataStream\<close> and \<^verbatim>\<open>DownloadToFile\<close> return the error
  "download failed with status N", N the status in decimal. The request was sent,
  and nothing else happened: the caller's variables and the record of callback
  invocations are as they were (neither the record callback nor the progress callback
  ran) and no file was written.
\<close>

theorem download_failed_status:
  assumes "downloadURI \<noteq> []"
    and "NewRequest_error lib downloadURI = None"
    and "httpClient c (download_request c cx downloadURI) = Inr resp"
    and "resp_StatusCode resp \<ge> 400"
  shows "DownloadBulkDataStream lib json c cx downloadURI cardCallback progressFn w st
           = (Some (ErrorString (''download failed with status '' @ itoa (resp_StatusCode resp))),
              w\<lparr>requests := requests w @ [download_request c cx downloadURI]\<rparr>, st) \<and>
         DownloadToFile lib c cx downloadURI filePath progressFn w st
           = (Some (ErrorString (''download failed with status '' @ itoa (resp_StatusCode resp))),
              w\<lparr>requests := requests w @ [download_request c cx downloadURI]\<rparr>, st)"
  using assms
  by (simp add: DownloadBulkDataStream_def DownloadToFile_def NewRequestWithContext_def
      Header_Set_def Do_def download_request_def)

text \<open>Status 404 with an empty body: the error names 404.\<close>

theorem download_failed_status_witness:
  "DownloadBulkDataStream demo_lib demo_json (demo_client 404 []) None ''https://data.scryfall.io/all.json''
       demo_callback (Some demo_progress) demo_world demo_caller
     = (Some (ErrorString ''download failed with status 404''),
        demo_world\<lparr>requests := [download_request (demo_client 404 []) None ''https://data.scryfall.io/all.json'']\<rparr>,
        demo_caller) \<and>
   DownloadToFile demo_lib (demo_client 404 []) None ''https://data.scryfall.io/all.json''
       ''all.json'' (Some demo_progress) demo_world demo_caller
     = (Some (ErrorString ''download failed with status 404''),
        demo_world\<lparr>requests := [download_request (demo_client 404 []) None ''https://data.scryfall.io/all.json'']\<rparr>,
        demo_caller) \<and>
   calls demo_caller = []"
  using download_failed_status [of "''https://data.scryfall.io/all.json''" demo_lib
      "demo_client 404 []" None _ demo_json demo_callback "Some demo_progress" demo_world
      demo_caller "''all.json''"]
  by (simp add: demo_lib_def demo_client_def demo_world_def itoa_def demo_caller_def)

text \<open>
  C7. When the limiter admits the call, the request can be built and the response has a
  status of 400 or more, \<^verbatim>\<open>get\<close> fails, and its error is made from the body of the
  response: the bytes the body delivers are decoded by \<^verbatim>\<open>json.Unmarshal\<close> as an
  \<^verbatim>\<open>APIError\<close>, to which the status is attached (an empty body gives an \<^verbatim>\<open>APIError\<close>
  with the status only); the text of that error holds the details when there are
  any, and the status alone when there are none. When the body cannot be read (its first error is not \<^verbatim>\<open>io.EOF\<close>) or not be
  decoded, the error is that of the read or of the decoding, wrapped in a text that
  names the status. The four endpoint operations return what \<^verbatim>\<open>get\<close> returns for
  their path.
\<close>

theorem api_error_status:
  assumes "limiter c (ctx_or_Background cx) = None"
    and "url_Parse lib path = None"
    and "NewRequest_error lib (ResolveReference lib (baseURL c) path) = None"
    and "httpClient c (api_request lib c cx path) = Inr resp"
    and "resp_StatusCode resp \<ge> 400"
  shows "get lib json c cx path unmarshal w =
           (Inl (if first_error (resp_Body resp) \<noteq> EOF
                 then WrapError (''scryfall error status '' @ itoa (resp_StatusCode resp) @ '': '')
                        (first_error (resp_Body resp))
                 else if delivered (resp_Body resp) = []
                 then APIErr \<lparr>StatusCode = resp_StatusCode resp, Details = [], Type = [],
                              Warnings = []\<rparr>
                 else (case into_APIError json (delivered (resp_Body resp)) of
                         Inl e \<Rightarrow>
                           WrapError (''scryfall error status '' @ itoa (resp_StatusCode resp) @ '': '') e
                       | Inr a \<Rightarrow> APIErr (a\<lparr>StatusCode := resp_StatusCode resp\<rparr>))),
            w\<lparr>waits := Suc (waits w), requests := requests w @ [api_request lib c cx path]\<rparr>) \<and>
         (\<forall>a. Details a \<noteq> [] \<longrightarrow>
               APIError_Error (Some (a\<lparr>StatusCode := resp_StatusCode resp\<rparr>)) =
                 ''scryfall api error ('' @ itoa (resp_StatusCode resp) @ ''): '' @ Details a) \<and>
         (\<forall>a. Details a = [] \<longrightarrow>
               APIError_Error (Some (a\<lparr>StatusCode := resp_StatusCode resp\<rparr>)) =
                 ''scryfall api error ('' @ itoa (resp_StatusCode resp) @ '')'') \<and>
         (\<forall>card_id. card_id \<noteq> [] \<and> path = ''/cards/'' @ card_id \<longrightarrow>
            GetCardByID lib json c cx card_id w = get lib json c cx path (into_Card json) w) \<and>
         (path = ''/bulk-data'' \<longrightarrow>
            ListBulkData lib json c cx w = get lib json c cx path (into_BulkDataList json) w) \<and>
         (path = ''/sets'' \<longrightarrow>
            ListSets lib json c cx w = get lib json c cx path (into_SetList json) w) \<and>
         (\<forall>bulkType. bulkType \<noteq> [] \<and> path = ''/bulk-data/'' @ bulkType \<longrightarrow>
            GetBulkDataByType lib json c cx bulkType w
              = get lib json c cx path (into_CardBulkData json) w)"
proof -
  have g: "get lib json c cx path unmarshal w =
      (case decodeAPIError json (resp_Body resp) of
         Inl readErr \<Rightarrow>
           (Inl (WrapError (''scryfall error status '' @ itoa (resp_StatusCode resp) @ '': '') readErr),
            w\<lparr>waits := Suc (waits w), requests := requests w @ [api_request lib c cx path]\<rparr>)
       | Inr apiErr \<Rightarrow>
           (Inl (APIErr (apiErr\<lparr>StatusCode := resp_StatusCode resp\<rparr>)),
            w\<lparr>waits := Suc (waits w), requests := requests w @ [api_request lib c cx path]\<rparr>))"
    using assms
    by (simp add: get_def limiter_Wait_def NewRequestWithContext_def Header_Set_def Do_def
        api_request_def download_request_def split: sum.splits)
  have d: "decodeAPIError json (resp_Body resp) =
      (if first_error (resp_Body resp) \<noteq> EOF then Inl (first_error (resp_Body resp))
       else if delivered (resp_Body resp) = []
       then Inr \<lparr>StatusCode = 0, Details = [], Type = [], Warnings = []\<rparr>
       else into_APIError json (delivered (resp_Body resp)))"
    by (simp add: decodeAPIError_def io_ReadAll_delivered)
  have first: "get lib json c cx path unmarshal w =
           (Inl (if first_error (resp_Body resp) \<noteq> EOF
                 then WrapError (''scryfall error status '' @ itoa (resp_StatusCode resp) @ '': '')
                        (first_error (resp_Body resp))
                 else if delivered (resp_Body resp) = []
                 then APIErr \<lparr>StatusCode = resp_StatusCode resp, Details = [], Type = [],
                              Warnings = []\<rparr>
                 else (case into_APIError json (delivered (resp_Body resp)) of
                         Inl e \<Rightarrow>
                           WrapError (''scryfall error status '' @ itoa (resp_StatusCode resp) @ '': '') e
                       | Inr a \<Rightarrow> APIErr (a\<lparr>StatusCode := resp_StatusCode resp\<rparr>))),
            w\<lparr>waits := Suc (waits w), requests := requests w @ [api_request lib c cx path]\<rparr>)"
    unfolding g d by (simp split: sum.splits)
  show ?thesis
    unfolding first [symmetric]
    by (simp add: GetCardByID_def ListBulkData_def ListSets_def GetBulkDataByType_def
        APIError_Error_def)
qed

text \<open>
  Status 429 with the rate-limit body, through \<^verbatim>\<open>GetCardByID\<close>: the body comes in
  one read that returns \<^verbatim>\<open>io.EOF\<close> with it. The same body as \<^verbatim>\<open>json.Encoder\<close> writes
  it, with a newline, decodes to the same error.
\<close>

theorem api_error_status_witness:
  \<open>GetCardByID demo_lib demo_json
       (demo_client 429 [(''{"details":"slow down","type":"rate_limited"}'', Some EOF)])
       None ''abc'' demo_world
     = (Inl (APIErr \<lparr>StatusCode = 429, Details = ''slow down'', Type = ''rate_limited'',
                     Warnings = []\<rparr>),
        demo_world\<lparr>waits := 1, requests :=
          [api_request demo_lib
             (demo_client 429 [(''{"details":"slow down","type":"rate_limited"}'', Some EOF)])
             None ''/cards/abc'']\<rparr>) \<and>
   APIError_Error (Some \<lparr>StatusCode = 429, Details = ''slow down'', Type = ''rate_limited'',
                     Warnings = []\<rparr>) = ''scryfall api error (429): slow down'' \<and>
   demo_into_APIError slow_down_body
     = Inr \<lparr>StatusCode = 0, Details = ''slow down'', Type = ''rate_limited'', Warnings = []\<rparr>\<close>
proof -
  let ?b = \<open>[(''{"details":"slow down","type":"rate_limited"}'', Some EOF)] :: body\<close>
  let ?c = "demo_client 429 ?b"
  let ?resp = "\<lparr>resp_StatusCode = 429, resp_ContentLength = int (bytes_read ?b), resp_Body = ?b\<rparr>"
  let ?a = "\<lparr>StatusCode = 0, Details = ''slow down'', Type = ''rate_limited'', Warnings = []\<rparr>"
  have d: \<open>into_APIError demo_json ''{"details":"slow down","type":"rate_limited"}'' = Inr ?a\<close>
    \<open>demo_into_APIError slow_down_body = Inr ?a\<close>
    by (simp_all add: demo_json_def demo_into_APIError_def demo_object_def demo_field_def
        isSpace_def slow_down_body_def)
  have h: "limiter ?c (ctx_or_Background None) = None"
    "url_Parse demo_lib ''/cards/abc'' = None"
    "NewRequest_error demo_lib (ResolveReference demo_lib (baseURL ?c) ''/cards/abc'') = None"
    "httpClient ?c (api_request demo_lib ?c None ''/cards/abc'') = Inr ?resp"
    "resp_StatusCode ?resp \<ge> 400"
    by (simp_all add: demo_client_def demo_lib_def)
  note t = api_error_status [OF h, of demo_json "into_Card demo_json" demo_world]
  have g: "get demo_lib demo_json ?c None ''/cards/abc'' (into_Card demo_json) demo_world
      = (Inl (APIErr (?a\<lparr>StatusCode := 429\<rparr>)),
         demo_world\<lparr>waits := Suc (waits demo_world),
           requests := requests demo_world @ [api_request demo_lib ?c None ''/cards/abc'']\<rparr>)"
    using t [THEN conjunct1] by (simp add: d(1))
  have e: "APIError_Error (Some (?a\<lparr>StatusCode := 429\<rparr>))
      = ''scryfall api error ('' @ itoa 429 @ ''): '' @ ''slow down''"
    using t [THEN conjunct2, THEN conjunct1, rule_format, of ?a] by simp
  have "GetCardByID demo_lib demo_json ?c None ''abc'' demo_world
      = get demo_lib demo_json ?c None ''/cards/abc'' (into_Card demo_json) demo_world"
    using t [THEN conjunct2, THEN conjunct2, THEN conjunct2, THEN conjunct1, rule_format,
        of "''abc''"] by simp
  with g e d(2) show ?thesis
    by (simp add: demo_world_def itoa_def)
qed

subsection \<open>Progress\<close>

text \<open>
  C9, as amended. Take the reader the download functions build when a progress callback
  is supplied, over a stream of fewer than \<open>2^63\<close> bytes, and any \<open>k\<close> reads from it.
  Then the callback ran once per read, also for a read that returned no bytes; the
  running total of the \<open>i\<close>-th call is the number of bytes the first \<open>i\<close> reads returned
  (with it goes the declared content length), so it never decreases and grows by
  exactly what each read returned; and the running total of the last call is the number
  of bytes read. It is not strictly increasing: a read that returns no bytes, as the
  one that reports the end of the stream does, repeats the total.
\<close>

theorem progress_running_total:
  assumes "Read_n k (response_reader resp (Some f)) st = (results, rd', st')"
    and "int (bytes_read (resp_Body resp)) < 2 ^ 63"
  shows "progress_calls (calls st') = progress_calls (calls st) @
           map (\<lambda>i. (int (bytes_read (take (Suc i) results)), resp_ContentLength resp)) [0..<k] \<and>
         sorted (map (\<lambda>i. int (bytes_read (take (Suc i) results))) [0..<k]) \<and>
         (\<forall>i. Suc i < k \<longrightarrow>
            int (bytes_read (take (Suc (Suc i)) results)) =
              int (bytes_read (take (Suc i) results)) + int (length (fst (results ! Suc i)))) \<and>
         (0 < k \<longrightarrow> fst (last (progress_calls (calls st'))) = int (bytes_read results))"
proof -
  have len: "length results = k"
    using Read_n_length [OF assms(1)] .
  have eq: "progress_calls (calls st') = progress_calls (calls st) @
           map (\<lambda>i. (int (bytes_read (take (Suc i) results)), resp_ContentLength resp)) [0..<k]"
    using Read_n_progress [OF assms(1) [unfolded response_reader_def option.case]] assms(2)
    by simp
  have srt: "sorted (map (\<lambda>i. int (bytes_read (take (Suc i) results))) [0..<k])"
    by (simp add: sorted_map sorted_wrt_iff_nth_less bytes_read_take_mono)
  have stp: "int (bytes_read (take (Suc (Suc i)) results)) =
        int (bytes_read (take (Suc i) results)) + int (length (fst (results ! Suc i)))"
    if "Suc i < k" for i
    using that len by (simp add: take_Suc_conv_app_nth [of "Suc i"] bytes_read_def)
  have lst: "fst (last (progress_calls (calls st'))) = int (bytes_read results)" if "0 < k"
  proof -
    from that obtain j where j: "k = Suc j"
      by (cases k) auto
    show ?thesis
      using len by (simp add: eq j)
  qed
  from eq srt stp lst show ?thesis
    by blast
qed

text \<open>Two chunks and the read that reports the end of the stream.\<close>

theorem progress_running_total_witness:
  "Read_n 3 (response_reader two_chunks (Some demo_progress)) demo_caller
     = ([(''ab'', None), (''c'', None), ([], Some EOF)],
        ProgressReader \<lparr>ReadCloser = [], Total = 3, Current = 3, OnRead = Some demo_progress\<rparr>,
        \<lparr>vars = (), calls = [OnReadCall 2 3, OnReadCall 3 3, OnReadCall 3 3]\<rparr>) \<and>
   int (bytes_read (resp_Body two_chunks)) < 2 ^ 63 \<and>
   fst (last (progress_calls [OnReadCall 2 3, OnReadCall 3 3, OnReadCall 3 3 :: string event]))
     = int (bytes_read [(''ab'', None), (''c'', None), ([], Some EOF)])"
proof -
  have run: "Read_n 3 (response_reader two_chunks (Some demo_progress)) demo_caller
     = ([(''ab'', None), (''c'', None), ([], Some EOF)],
        ProgressReader \<lparr>ReadCloser = [], Total = 3, Current = 3, OnRead = Some demo_progress\<rparr>,
        \<lparr>vars = (), calls = [OnReadCall 2 3, OnReadCall 3 3, OnReadCall 3 3 :: string event]\<rparr>)"
    by (simp add: numeral_3_eq_3 response_reader_def two_chunks_def Read_def
        progressReader_Read_def body_Read_def call_OnRead_def demo_caller_def demo_progress_def
        int64_def)
  have small: "int (bytes_read (resp_Body two_chunks)) < 2 ^ 63"
    by (simp add: two_chunks_def bytes_read_def)
  have "fst (last (progress_calls [OnReadCall 2 3, OnReadCall 3 3, OnReadCall 3 3 :: string event]))
     = int (bytes_read [(''ab'', None), (''c'', None), ([], Some EOF)])"
    using progress_running_total [OF run small, THEN conjunct2, THEN conjunct2, THEN conjunct2]
    by simp
  with run small show ?thesis
    by blast
qed

text \<open>
  The claim as stated fails: \<^verbatim>\<open>DownloadToFile\<close> over a body that arrives as
  \<^verbatim>\<open>ab\<close>, \<^verbatim>\<open>c\<close> reports the totals 2, 3, 3.
\<close>

theorem progress_total_not_strictly_increasing:
  "(case DownloadToFile demo_lib (demo_client 200 [(''ab'', None), (''c'', None)]) None
           ''https://data.scryfall.io/all.json'' ''all.json'' (Some demo_progress)
           demo_world demo_caller of
      (e, w, st) \<Rightarrow>
        e = None \<and> files w ''all.json'' = Some ''abc'' \<and>
        map fst (progress_calls (calls st)) = [2, 3, 3] \<and>
        \<not> sorted_wrt (<) (map fst (progress_calls (calls st))))"
  by (simp add: DownloadToFile_def demo_lib_def demo_client_def demo_world_def demo_caller_def
      demo_progress_def NewRequestWithContext_def Header_Set_def Do_def response_reader_def
      Read_def progressReader_Read_def body_Read_def call_OnRead_def int64_def bytes_read_def
      ctx_or_Background_def io_Copy.simps)

subsection \<open>Which calls a run makes\<close>

lemma quiet_refl [simp]: "quiet rd st rd st"
  by (simp add: quiet_def)

lemma quiet_trans: "quiet rd st rd1 st1 \<Longrightarrow> quiet rd1 st1 rd2 st2 \<Longrightarrow> quiet rd st rd2 st2"
  by (auto simp: quiet_def)

lemma Read_quiet: "Read rd st = (res, rd', st') \<Longrightarrow> quiet rd st rd' st'"
  by (auto simp: Read_def progressReader_Read_def body_Read_def call_OnRead_def quiet_def
      plain_def Let_def split: reader.splits list.splits prod.splits option.splits)

lemma refill_quiet:
  "refill dec st = (e, dec', st') \<Longrightarrow> quiet (dec_r dec) st (dec_r dec') st'"
  by (auto simp: refill_def dest: Read_quiet split: prod.splits)

lemma peek_loop_quiet:
  "peek_loop e dec st = (res, dec', st') \<Longrightarrow> quiet (dec_r dec) st (dec_r dec') st'"
proof (induction e dec st rule: peek_loop.induct)
  case (1 e dec st)
  show ?case
  proof (cases "dropWhile isSpace (buf dec)")
    case (Cons c cs)
    with "1.prems" show ?thesis
      by (subst (asm) peek_loop.simps) auto
  next
    case Nil
    show ?thesis
    proof (cases e)
      case (Some e')
      with "1.prems" Nil show ?thesis
        by (subst (asm) peek_loop.simps) auto
    next
      case None
      obtain e1 dec1 st1 where r: "refill dec st = (e1, dec1, st1)"
        by (cases "refill dec st") auto
      from "1.prems" Nil None r have "peek_loop e1 dec1 st1 = (res, dec', st')"
        by (subst (asm) peek_loop.simps) simp
      from "1.IH" [OF Nil None r [symmetric] refl this] refill_quiet [OF r]
      show ?thesis by (rule quiet_trans [rotated])
    qed
  qed
qed

lemma peek_quiet: "peek dec st = (res, dec', st') \<Longrightarrow> quiet (dec_r dec) st (dec_r dec') st'"
  by (simp add: peek_def peek_loop_quiet)

lemma readValue_loop_quiet:
  "readValue_loop sc n e dec st = (res, dec', st') \<Longrightarrow> quiet (dec_r dec) st (dec_r dec') st'"
proof (induction sc n e dec st rule: readValue_loop.induct)
  case (1 sc n e dec st)
  show ?case
  proof (cases "scan_bytes sc n (drop n (buf dec))")
    case (ScanDone k)
    with "1.prems" show ?thesis
      by (subst (asm) readValue_loop.simps) auto
  next
    case (ScanFail x)
    with "1.prems" show ?thesis
      by (subst (asm) readValue_loop.simps) auto
  next
    case (ScanMore sc' k)
    show ?thesis
    proof (cases e)
      case (Some e')
      with "1.prems" ScanMore show ?thesis
        by (subst (asm) readValue_loop.simps) (auto simp: Let_def split: if_splits)
    next
      case None
      obtain e1 dec1 st1 where rf: "refill dec st = (e1, dec1, st1)"
        by (cases "refill dec st") auto
      from "1.prems" ScanMore None rf
      have run: "readValue_loop sc' k e1 dec1 st1 = (res, dec', st')"
        by (subst (asm) readValue_loop.simps) simp
      from "1.IH" [OF ScanMore None rf [symmetric] refl run] refill_quiet [OF rf]
      show ?thesis by (rule quiet_trans [rotated])
    qed
  qed
qed

lemma tokenPrepareForDecode_quiet:
  "tokenPrepareForDecode dec st = (r, dec', st') \<Longrightarrow> quiet (dec_r dec) st (dec_r dec') st'"
  by (auto simp: tokenPrepareForDecode_def split: if_splits prod.splits sum.splits
      dest!: peek_quiet)

lemma tokenValueEnd_dec_r [simp]: "dec_r (tokenValueEnd dec) = dec_r dec"
  by (simp add: tokenValueEnd_def)

lemma Decode_quiet:
  "Decode unmarshal dec st = (r, dec', st') \<Longrightarrow> quiet (dec_r dec) st (dec_r dec') st'"
proof -
  assume d: "Decode unmarshal dec st = (r, dec', st')"
  obtain r1 dec1 st1 where p: "tokenPrepareForDecode dec st = (r1, dec1, st1)"
    by (cases "tokenPrepareForDecode dec st") auto
  obtain r2 dec2 st2 where rv: "readValue dec1 st1 = (r2, dec2, st2)"
    by (cases "readValue dec1 st1") auto
  note q1 = tokenPrepareForDecode_quiet [OF p]
  note q2 = readValue_loop_quiet [OF rv [unfolded readValue_def]]
  note q12 = quiet_trans [OF q1 q2]
  from d p rv q1 q12 show ?thesis
    by (auto simp: Decode_def split: option.splits if_splits prod.splits)
qed

lemma More_quiet: "More dec st = (b, dec', st') \<Longrightarrow> quiet (dec_r dec) st (dec_r dec') st'"
  by (auto simp: More_def split: prod.splits sum.splits dest!: peek_quiet)


lemma Token_shape:
  assumes "Token u dec st = (res, dec', st')" and "peek dec st = (r1, dec1, st1)"
  shows "(dec_r dec' = dec_r dec1 \<and> st' = st1) \<or>
         (\<exists>c ts. r1 = Inr c \<and>
            Token u (dec1\<lparr>buf := tl (buf dec1), tokenState := ts\<rparr>) st1 = (res, dec', st')) \<or>
         (\<exists>d r2 dec2. dec_r d = dec_r dec1 \<and> Decode (discard_value u) d st1 = (r2, dec2, st')
            \<and> dec_r dec' = dec_r dec2)"
proof (cases r1)
  case (Inl e)
  with assms show ?thesis
    by (subst (asm) Token.simps) simp
next
  case (Inr c)
  from assms(1) show ?thesis
    apply (subst (asm) Token.simps)
    apply (simp only: assms(2) Inr prod.case sum.case)
    apply (auto split: if_splits list.splits sum.splits prod.splits)
       apply (erule_tac [!] x = "dec1\<lparr>tokenState := tokenTopValue\<rparr>" in allE)
       apply simp_all
    done
qed

lemma Token_quiet:
  "Token u dec st = (res, dec', st') \<Longrightarrow> quiet (dec_r dec) st (dec_r dec') st'"
proof (induction "unread dec" arbitrary: dec st rule: less_induct)
  case less
  obtain r1 dec1 st1 where p: "peek dec st = (r1, dec1, st1)"
    by (cases "peek dec st") auto
  note q = peek_quiet [OF p]
  from Token_shape [OF less.prems p]
  consider (direct) "dec_r dec' = dec_r dec1" "st' = st1"
    | (again) c ts where "r1 = Inr c"
        "Token u (dec1\<lparr>buf := tl (buf dec1), tokenState := ts\<rparr>) st1 = (res, dec', st')"
    | (decode) d r2 dec2 where "dec_r d = dec_r dec1"
        "Decode (discard_value u) d st1 = (r2, dec2, st')" "dec_r dec' = dec_r dec2"
    by blast
  then show ?case
  proof cases
    case direct
    with q show ?thesis by simp
  next
    case again
    from peek_unread [OF p [unfolded again(1)]]
    have "unread (dec1\<lparr>buf := tl (buf dec1), tokenState := ts\<rparr>) < unread dec"
      by (simp add: unread_def)
    from less.hyps [OF this again(2)] q show ?thesis
      by (auto intro: quiet_trans)
  next
    case decode
    from Decode_quiet [OF decode(2)] decode(1,3) q show ?thesis
      by (auto intro: quiet_trans)
  qed
qed

lemma calls_ok_Nil [simp]: "calls_ok [] res"
  by (simp add: calls_ok_def)

lemma calls_ok_single [simp]: "calls_ok [(c, r)] r"
  by (simp add: calls_ok_def)

lemma calls_ok_Cons: "calls_ok new res \<Longrightarrow> calls_ok ((c, None) # new) res"
  by (auto simp: calls_ok_def)

lemma call_cardCallback_effect:
  "call_cardCallback cb c st = (e, st') \<Longrightarrow>
     calls st' = calls st @ [CardCall c e] \<and> vars st' = snd (cb c (vars st)) \<and>
     e = fst (cb c (vars st))"
  by (auto simp: call_cardCallback_def split: prod.splits)

lemma loop_calls:
  "ProcessBulkDataStream_loop json cb dec st = (res, dec', st') \<Longrightarrow>
   \<exists>new. card_calls (calls st') = card_calls (calls st) @ new \<and> calls_ok new res \<and>
         (\<forall>x \<in> set new. \<exists>s. snd x = fst (cb (fst x) s)) \<and>
         plain (dec_r dec') = plain (dec_r dec) \<and>
         (plain (dec_r dec) \<longrightarrow> vars st' = after_calls cb (vars st) new)"
proof (induction "unread dec" arbitrary: dec st rule: less_induct)
  case less
  obtain b dec1 st1 where m: "More dec st = (b, dec1, st1)"
    by (cases "More dec st") auto
  note q1 = More_quiet [OF m]
  show ?case
  proof (cases b)
    case False
    with less.prems m have "res = None" "dec' = dec1" "st' = st1"
      by (subst (asm) ProcessBulkDataStream_loop.simps; simp)+
    with q1 show ?thesis
      by (intro exI [of _ "[]"]) (auto simp: quiet_def after_calls_def)
  next
    case True
    obtain r2 dec2 st2 where d: "Decode (into_Card json) dec1 st1 = (r2, dec2, st2)"
      by (cases "Decode (into_Card json) dec1 st1") auto
    note q2 = quiet_trans [OF q1 Decode_quiet [OF d]]
    show ?thesis
    proof (cases r2)
      case (Inl e)
      with less.prems m True d have "dec' = dec2" "st' = st2"
        by (subst (asm) ProcessBulkDataStream_loop.simps; simp)+
      with q2 show ?thesis
        by (intro exI [of _ "[]"]) (auto simp: quiet_def after_calls_def)
    next
      case (Inr c)
      obtain e st3 where cb: "call_cardCallback cb c st2 = (e, st3)"
        by (cases "call_cardCallback cb c st2") auto
      note eff = call_cardCallback_effect [OF cb]
      show ?thesis
      proof (cases e)
        case (Some x)
        with less.prems m True d Inr cb have "res = Some x" "dec' = dec2" "st' = st3"
          by (subst (asm) ProcessBulkDataStream_loop.simps; simp)+
        with q2 eff Some show ?thesis
          by (intro exI [of _ "[(c, Some x)]"]) (auto simp: quiet_def after_calls_def)
      next
        case None
        with less.prems m True d Inr cb
        have run: "ProcessBulkDataStream_loop json cb dec2 st3 = (res, dec', st')"
          by (subst (asm) ProcessBulkDataStream_loop.simps) simp
        have "unread dec2 < unread dec"
          using More_unread [OF m] Decode_unread [OF d [unfolded Inr]] by simp
        from less.hyps [OF this run] obtain new where
          n: "card_calls (calls st') = card_calls (calls st3) @ new" "calls_ok new res"
            "plain (dec_r dec') = plain (dec_r dec2)"
            "plain (dec_r dec2) \<longrightarrow> vars st' = after_calls cb (vars st3) new"
            "\<forall>x \<in> set new. \<exists>s. snd x = fst (cb (fst x) s)"
          by blast
        from n q2 eff None show ?thesis
          by (intro exI [of _ "(c, None) # new"])
             (auto simp: quiet_def after_calls_def calls_ok_Cons)
      qed
    qed
  qed
qed

lemma NewDecoder_dec_r [simp]: "dec_r (NewDecoder rd) = rd"
  by (simp add: NewDecoder_def)

lemma PBDS_calls:
  assumes "ProcessBulkDataStream json rd cb st = (res, st')"
  shows "\<exists>new. card_calls (calls st') = card_calls (calls st) @ new \<and> calls_ok new res \<and>
           (\<forall>x \<in> set new. \<exists>s. snd x = fst (cb (fst x) s)) \<and>
           (plain rd \<longrightarrow> vars st' = after_calls cb (vars st) new)"
proof -
  obtain r1 dec1 st1 where t1: "Token (into_any json) (NewDecoder rd) st = (r1, dec1, st1)"
    by (cases "Token (into_any json) (NewDecoder rd) st") auto
  from Token_quiet [OF t1] have q1: "quiet rd st (dec_r dec1) st1"
    by simp
  show ?thesis
  proof (cases "r1 = Inr (Delim CHR ''['')")
    case False
    with assms t1 have "st' = st1"
      by (auto simp: ProcessBulkDataStream_def split: sum.splits)
    with q1 show ?thesis
      by (intro exI [of _ "[]"]) (auto simp: quiet_def after_calls_def)
  next
    case True
    obtain r2 dec2 st2 where l: "ProcessBulkDataStream_loop json cb dec1 st1 = (r2, dec2, st2)"
      by (cases "ProcessBulkDataStream_loop json cb dec1 st1") auto
    from loop_calls [OF l] obtain new where
      n: "card_calls (calls st2) = card_calls (calls st1) @ new" "calls_ok new r2"
        "plain (dec_r dec2) = plain (dec_r dec1)"
        "plain (dec_r dec1) \<longrightarrow> vars st2 = after_calls cb (vars st1) new"
        "\<forall>x \<in> set new. \<exists>s. snd x = fst (cb (fst x) s)"
      by blast
    obtain r3 dec3 st3 where t3: "Token (into_any json) dec2 st2 = (r3, dec3, st3)"
      by (cases "Token (into_any json) dec2 st2") auto
    note q3 = Token_quiet [OF t3]
    show ?thesis
    proof (cases r2)
      case (Some e)
      with assms t1 True l have "res = Some e" "st' = st2"
        by (auto simp: ProcessBulkDataStream_def)
      with n q1 Some show ?thesis
        by (intro exI [of _ new]) (auto simp: quiet_def)
    next
      case None
      with assms t1 True l t3 have "st' = st3"
        by (auto simp: ProcessBulkDataStream_def split: sum.splits if_splits)
      moreover from n(2) None have "calls_ok new res"
        by (auto simp: calls_ok_def)
      ultimately show ?thesis
        using n q1 q3
        by (intro exI [of _ new]) (auto simp: quiet_def)
    qed
  qed
qed


text \<open>
  Three records in two chunks, and a callback that fails on the second: two calls, and
  the callback's error is returned as it is.
\<close>

lemmas run_defs =
  ProcessBulkDataStream_def ProcessBulkDataStream_loop.simps Token.simps More_def Decode_def
  peek_def peek_loop.simps readValue_def readValue_loop.simps refill_def Read_def body_Read_def
  NewDecoder_def tokenValueAllowed_def tokenValueEnd_def tokenPrepareForDecode_def
  tokenError_def discard_value_def call_cardCallback_def isSpace_def
  scanner_step_def scanner_reset_def stateBeginValueOrEmpty_def stateBeginValue_def
  stateBeginStringOrEmpty_def stateBeginString_def stateEndValue_def stateEndTop_def
  stateInString_def stateInStringEsc_def stateHex_def stateNeg_def state1_def state0_def
  stateDot_def stateDot0_def stateE_def stateESign_def stateE0_def stateLit_def stateError_def
  scanner_error_def pushParseState_def popParseState_def maxNestingDepth_def nonSpace_def
  isDigit_def isHex_def progressReader_Read_def call_OnRead_def int64_def


subsection \<open>Decoding a stream that holds an array\<close>

lemma refill_pending:
  "pending (dec_r dec) = (p, e) # others \<Longrightarrow>
     \<exists>rd1 st1. refill dec st = (e, dec\<lparr>dec_r := rd1, buf := buf dec @ p\<rparr>, st1) \<and>
       pending rd1 = others"
  by (cases "dec_r dec")
     (auto simp: refill_def Read_def progressReader_Read_def body_Read_def pending_def Let_def
       split: option.splits)

lemma refill_exhausted:
  "pending (dec_r dec) = [] \<Longrightarrow>
     \<exists>rd1 st1. refill dec st = (Some EOF, dec\<lparr>dec_r := rd1\<rparr>, st1) \<and> pending rd1 = []"
  by (cases "dec_r dec")
     (auto simp: refill_def Read_def progressReader_Read_def body_Read_def pending_def Let_def
       split: option.splits)

lemma scan_bytes_append:
  "scan_bytes sc n (a @ b) =
     (case scan_bytes sc n a of
        ScanDone m \<Rightarrow> ScanDone m
      | ScanFail e \<Rightarrow> ScanFail e
      | ScanMore sc' m \<Rightarrow> scan_bytes sc' m b)"
  by (induction a arbitrary: sc n) (auto split: prod.splits)

lemma scan_bytes_count:
  "(case scan_bytes sc n a of
      ScanDone m \<Rightarrow> n \<le> m \<and> m \<le> n + length a
    | ScanFail e \<Rightarrow> True
    | ScanMore sc' m \<Rightarrow> m = n + length a)"
proof (induction a arbitrary: sc n)
  case Nil
  show ?case by simp
next
  case (Cons c cs)
  obtain opc sc' where s: "scanner_step sc c = (opc, sc')"
    by (cases "scanner_step sc c") auto
  obtain opc' sc'' where e: "stateEndValue sc' CHR '' '' = (opc', sc'')"
    by (cases "stateEndValue sc' CHR '' ''") auto
  from Cons.IH [where sc = sc' and n = "Suc n"] Cons.IH [where sc = sc'' and n = "Suc n"] s e show ?case
    by (auto split: scan_outcome.splits)
qed

lemma scan_bytes_shift:
  "scan_bytes sc (n + k) a =
     (case scan_bytes sc n a of
        ScanDone m \<Rightarrow> ScanDone (m + k)
      | ScanFail e \<Rightarrow> ScanFail e
      | ScanMore sc' m \<Rightarrow> ScanMore sc' (m + k))"
proof (induction a arbitrary: sc n)
  case Nil
  show ?case by simp
next
  case (Cons c cs)
  obtain opc sc' where s: "scanner_step sc c = (opc, sc')"
    by (cases "scanner_step sc c") auto
  obtain opc' sc'' where e: "stateEndValue sc' CHR '' '' = (opc', sc'')"
    by (cases "stateEndValue sc' CHR '' ''") auto
  from Cons.IH [where sc = sc' and n = "Suc n"] Cons.IH [where sc = sc'' and n = "Suc n"] s e show ?case
    by simp
qed

lemma scan_bytes_spaces:
  "spaces b \<Longrightarrow> scan_bytes scanner_reset n (b @ x) = scan_bytes scanner_reset (n + length b) x"
proof (induction b arbitrary: n)
  case Nil
  show ?case by simp
next
  case (Cons c cs)
  then have "isSpace c" "spaces cs"
    by (simp_all add: spaces_def)
  then have "scanner_step scanner_reset c = (scanSkipSpace, scanner_reset)"
    by (simp add: scanner_step_def scanner_reset_def stateBeginValue_def)
  with Cons.IH [OF \<open>spaces cs\<close>, of "Suc n"] show ?case
    by simp
qed

lemma nothing_more:
  "list_all (\<lambda>r. r = ([], Some EOF)) b \<Longrightarrow> delivered b = [] \<and> ends b"
  by (cases b) auto

lemma ends_first_error: "ends b \<Longrightarrow> first_error b = EOF"
  by (induction b) (auto split: option.splits)

lemma delivered_chunks:
  "delivered (map (\<lambda>p. (p, None)) chunks @ rest) = concat chunks @ delivered rest"
  by (induction chunks) simp_all

lemma peek_loop_in_buf:
  "dropWhile isSpace (buf dec) = c # cs \<Longrightarrow> peek_loop e dec st = (Inr c, dec\<lparr>buf := c # cs\<rparr>, st)"
  by (subst peek_loop.simps) simp

lemma dropWhile_found:
  "dropWhile isSpace a = c # cs \<Longrightarrow> dropWhile isSpace (a @ b) = c # cs @ b"
proof -
  assume d: "dropWhile isSpace a = c # cs"
  then obtain x where "x \<in> set a" "\<not> isSpace x"
    by (metis dropWhile_eq_Nil_conv list.distinct(1))
  then have "dropWhile isSpace (a @ b) = dropWhile isSpace a @ b"
    by (rule dropWhile_append1)
  with d show ?thesis by simp
qed

lemma dropWhile_none:
  "dropWhile isSpace a = [] \<Longrightarrow> dropWhile isSpace (a @ b) = dropWhile isSpace b"
  by (simp add: dropWhile_append)

lemma peek_loop_found:
  "pending (dec_r dec) = xs \<Longrightarrow> dropWhile isSpace (buf dec @ delivered xs) = c # cs \<Longrightarrow>
   \<exists>rd' b' st' tail.
     peek_loop None dec st = (Inr c, dec\<lparr>dec_r := rd', buf := c # b'\<rparr>, st') \<and>
     b' @ delivered (pending rd') = cs @ tail \<and> (ends xs \<longrightarrow> tail = [] \<and> ends (pending rd'))"
proof (induction xs arbitrary: dec st)
  case Nil
  then have "dropWhile isSpace (buf dec) = c # cs"
    by simp
  from peek_loop_in_buf [OF this] Nil.prems(1) show ?case
    by (intro exI [of _ "dec_r dec"] exI [of _ cs] exI [of _ st] exI [of _ "[]"]) simp
next
  case (Cons r others)
  obtain p e where r: "r = (p, e)"
    by (cases r) auto
  show ?case
  proof (cases "dropWhile isSpace (buf dec)")
    case (Cons c' b')
    from dropWhile_found [OF this, of "delivered (r # others)"] Cons.prems(2)
    have c: "c' = c" and cs: "cs = b' @ delivered (r # others)"
      by simp_all
    from peek_loop_in_buf [OF Cons] c cs Cons.prems(1) show ?thesis
      by (intro exI [of _ "dec_r dec"] exI [of _ b'] exI [of _ st] exI [of _ "[]"]) simp
  next
    case Nil
    from Cons.prems(1) r have pd: "pending (dec_r dec) = (p, e) # others"
      by simp
    from refill_pending [OF pd, of st] obtain rd1 st1 where
      rf: "refill dec st = (e, dec\<lparr>dec_r := rd1, buf := buf dec @ p\<rparr>, st1)"
      and p1: "pending rd1 = others"
      by blast
    let ?dec1 = "dec\<lparr>dec_r := rd1, buf := buf dec @ p\<rparr>"
    have step: "peek_loop None dec st = peek_loop e ?dec1 st1"
      by (subst peek_loop.simps) (simp add: Nil rf)
    show ?thesis
    proof (cases e)
      case None
      have "\<exists>rd' b' st' tail.
          peek_loop None ?dec1 st1 = (Inr c, ?dec1\<lparr>dec_r := rd', buf := c # b'\<rparr>, st') \<and>
          b' @ delivered (pending rd') = cs @ tail \<and>
          (ends others \<longrightarrow> tail = [] \<and> ends (pending rd'))"
        by (rule Cons.IH) (use p1 Cons.prems(2) r None in simp_all)
      with step None r show ?thesis
        by auto
    next
      case (Some e')
      with Cons.prems(2) r have "dropWhile isSpace (buf ?dec1) = c # cs"
        by simp
      from peek_loop_in_buf [OF this, of e st1] step
      have "peek_loop None dec st = (Inr c, dec\<lparr>dec_r := rd1, buf := c # cs\<rparr>, st1)"
        by simp
      moreover have "ends (r # others) \<longrightarrow> delivered others = [] \<and> ends others"
        using r Some nothing_more [of others] by simp
      ultimately show ?thesis
        using p1
        by (intro exI [of _ rd1] exI [of _ cs] exI [of _ st1] exI [of _ "delivered others"]) simp
    qed
  qed
qed

lemma peek_loop_nothing:
  "pending (dec_r dec) = xs \<Longrightarrow> spaces (buf dec @ delivered xs) \<Longrightarrow>
   \<exists>dec' st'. peek_loop None dec st = (Inl (first_error xs), dec', st')"
proof (induction xs arbitrary: dec st)
  case Nil
  then have d: "dropWhile isSpace (buf dec) = []"
    by (simp add: spaces_def list_all_iff)
  from Nil refill_exhausted [of dec st] obtain rd1 st1 where
    rf: "refill dec st = (Some EOF, dec\<lparr>dec_r := rd1\<rparr>, st1)"
    by auto
  have "peek_loop None dec st = peek_loop (Some EOF) (dec\<lparr>dec_r := rd1\<rparr>) st1"
    by (subst peek_loop.simps) (simp add: d rf)
  also have "\<dots> = (Inl EOF, dec\<lparr>dec_r := rd1\<rparr>, st1)"
    by (subst peek_loop.simps) (simp add: d)
  finally show ?case
    by simp
next
  case (Cons r others)
  obtain p e where r: "r = (p, e)"
    by (cases r) auto
  from Cons.prems(2) r have d: "dropWhile isSpace (buf dec) = []"
    by (simp add: spaces_def list_all_iff)
  from Cons.prems(1) r have pd: "pending (dec_r dec) = (p, e) # others"
    by simp
  from refill_pending [OF pd, of st] obtain rd1 st1 where
    rf: "refill dec st = (e, dec\<lparr>dec_r := rd1, buf := buf dec @ p\<rparr>, st1)"
    and p1: "pending rd1 = others"
    by blast
  let ?dec1 = "dec\<lparr>dec_r := rd1, buf := buf dec @ p\<rparr>"
  have step: "peek_loop None dec st = peek_loop e ?dec1 st1"
    by (subst peek_loop.simps) (simp add: d rf)
  show ?case
  proof (cases e)
    case None
    have "\<exists>dec' st'. peek_loop None ?dec1 st1 = (Inl (first_error others), dec', st')"
      by (rule Cons.IH) (use p1 Cons.prems(2) r None in simp_all)
    with step None r show ?thesis
      by simp
  next
    case (Some e')
    with Cons.prems(2) r have "dropWhile isSpace (buf ?dec1) = []"
      by (simp add: spaces_def list_all_iff)
    then have "peek_loop (Some e') ?dec1 st1 = (Inl e', ?dec1, st1)"
      by (subst peek_loop.simps) (simp only: list.case option.case)
    with step Some r show ?thesis
      by simp
  qed
qed

lemma readValue_loop_in_buf:
  "scan_bytes sc n (drop n (buf dec)) = ScanDone m \<Longrightarrow>
     readValue_loop sc n e dec st = ((None, m), dec, st)"
  "scan_bytes sc n (drop n (buf dec)) = ScanFail x \<Longrightarrow>
     readValue_loop sc n e dec st = ((x, 0), dec\<lparr>dec_err := x\<rparr>, st)"
  by (subst readValue_loop.simps, simp)+

lemma readValue_loop_done:
  "pending (dec_r dec) = xs \<Longrightarrow> n \<le> length (buf dec) \<Longrightarrow>
   scan_bytes sc n (drop n (buf dec) @ delivered xs) = ScanDone m \<Longrightarrow>
   \<exists>rd' b' st' tail.
     readValue_loop sc n None dec st = ((None, m), dec\<lparr>dec_r := rd', buf := b'\<rparr>, st') \<and>
     m \<le> length b' \<and> b' @ delivered (pending rd') = buf dec @ delivered xs @ tail \<and>
     (ends xs \<longrightarrow> tail = [] \<and> ends (pending rd'))"
proof (induction xs arbitrary: dec st sc n)
  case Nil
  then have sb: "scan_bytes sc n (drop n (buf dec)) = ScanDone m"
    by simp
  with scan_bytes_count [where sc = sc and n = n and a = "drop n (buf dec)"] Nil.prems(2)
  have "m \<le> length (buf dec)"
    by simp
  with readValue_loop_in_buf(1) [OF sb] Nil.prems(1) show ?case
    by (intro exI [of _ "dec_r dec"] exI [of _ "buf dec"] exI [of _ st] exI [of _ "[]"]) simp
next
  case (Cons r others)
  obtain p e where r: "r = (p, e)"
    by (cases r) auto
  note whole = Cons.prems(3) [unfolded scan_bytes_append]
  show ?case
  proof (cases "scan_bytes sc n (drop n (buf dec))")
    case (ScanDone k)
    with whole have km: "k = m"
      by simp
    with scan_bytes_count [where sc = sc and n = n and a = "drop n (buf dec)"] ScanDone Cons.prems(2)
    have "m \<le> length (buf dec)"
      by simp
    with readValue_loop_in_buf(1) [OF ScanDone [unfolded km]] Cons.prems(1) show ?thesis
      by (intro exI [of _ "dec_r dec"] exI [of _ "buf dec"] exI [of _ st] exI [of _ "[]"]) simp
  next
    case (ScanFail x)
    with whole show ?thesis by simp
  next
    case (ScanMore sc' k)
    with scan_bytes_count [where sc = sc and n = n and a = "drop n (buf dec)"] Cons.prems(2)
    have k: "k = length (buf dec)"
      by simp
    from whole ScanMore have rest_scan: "scan_bytes sc' k (delivered (r # others)) = ScanDone m"
      by simp
    from Cons.prems(1) r have pd: "pending (dec_r dec) = (p, e) # others"
      by simp
    from refill_pending [OF pd, of st] obtain rd1 st1 where
      rf: "refill dec st = (e, dec\<lparr>dec_r := rd1, buf := buf dec @ p\<rparr>, st1)"
      and p1: "pending rd1 = others"
      by blast
    let ?dec1 = "dec\<lparr>dec_r := rd1, buf := buf dec @ p\<rparr>"
    have step: "readValue_loop sc n None dec st = readValue_loop sc' k e ?dec1 st1"
      by (subst readValue_loop.simps) (simp add: ScanMore rf)
    show ?thesis
    proof (cases e)
      case None
      have "\<exists>rd' b' st' tail.
          readValue_loop sc' k None ?dec1 st1
            = ((None, m), ?dec1\<lparr>dec_r := rd', buf := b'\<rparr>, st') \<and>
          m \<le> length b' \<and> b' @ delivered (pending rd') = buf ?dec1 @ delivered others @ tail \<and>
          (ends others \<longrightarrow> tail = [] \<and> ends (pending rd'))"
        by (rule Cons.IH) (use p1 k rest_scan r None in simp_all)
      with step None r show ?thesis
        by auto
    next
      case (Some e')
      with rest_scan r k have sb: "scan_bytes sc' k (drop k (buf ?dec1)) = ScanDone m"
        by simp
      with scan_bytes_count [where sc = sc' and n = k and a = "drop k (buf ?dec1)"] k
      have "m \<le> length (buf dec @ p)"
        by simp
      moreover from readValue_loop_in_buf(1) [OF sb, of e st1] step
      have "readValue_loop sc n None dec st = ((None, m), dec\<lparr>dec_r := rd1, buf := buf dec @ p\<rparr>, st1)"
        by simp
      moreover have "ends (r # others) \<longrightarrow> delivered others = [] \<and> ends others"
        using r Some nothing_more [of others] by simp
      ultimately show ?thesis
        using p1 r Some
        by (intro exI [of _ rd1] exI [of _ "buf dec @ p"] exI [of _ st1]
            exI [of _ "delivered others"]) simp
    qed
  qed
qed

lemma readValue_loop_failed:
  "pending (dec_r dec) = xs \<Longrightarrow> n \<le> length (buf dec) \<Longrightarrow>
   scan_bytes sc n (drop n (buf dec) @ delivered xs) = ScanFail x \<Longrightarrow>
   \<exists>rd' b' st'. readValue_loop sc n None dec st
     = ((x, 0), dec\<lparr>dec_r := rd', buf := b', dec_err := x\<rparr>, st')"
proof (induction xs arbitrary: dec st sc n)
  case Nil
  then have sb: "scan_bytes sc n (drop n (buf dec)) = ScanFail x"
    by simp
  from readValue_loop_in_buf(2) [OF sb] show ?case
    by (intro exI [of _ "dec_r dec"] exI [of _ "buf dec"] exI [of _ st]) simp
next
  case (Cons r others)
  obtain p e where r: "r = (p, e)"
    by (cases r) auto
  note whole = Cons.prems(3) [unfolded scan_bytes_append]
  show ?case
  proof (cases "scan_bytes sc n (drop n (buf dec))")
    case (ScanDone k)
    with whole show ?thesis by simp
  next
    case (ScanFail y)
    with whole have "y = x"
      by simp
    with readValue_loop_in_buf(2) [OF ScanFail] show ?thesis
      by (intro exI [of _ "dec_r dec"] exI [of _ "buf dec"] exI [of _ st]) simp
  next
    case (ScanMore sc' k)
    with scan_bytes_count [where sc = sc and n = n and a = "drop n (buf dec)"] Cons.prems(2)
    have k: "k = length (buf dec)"
      by simp
    from whole ScanMore have rest_scan: "scan_bytes sc' k (delivered (r # others)) = ScanFail x"
      by simp
    from Cons.prems(1) r have pd: "pending (dec_r dec) = (p, e) # others"
      by simp
    from refill_pending [OF pd, of st] obtain rd1 st1 where
      rf: "refill dec st = (e, dec\<lparr>dec_r := rd1, buf := buf dec @ p\<rparr>, st1)"
      and p1: "pending rd1 = others"
      by blast
    let ?dec1 = "dec\<lparr>dec_r := rd1, buf := buf dec @ p\<rparr>"
    have step: "readValue_loop sc n None dec st = readValue_loop sc' k e ?dec1 st1"
      by (subst readValue_loop.simps) (simp add: ScanMore rf)
    show ?thesis
    proof (cases e)
      case None
      have "\<exists>rd' b' st'. readValue_loop sc' k None ?dec1 st1
            = ((x, 0), ?dec1\<lparr>dec_r := rd', buf := b', dec_err := x\<rparr>, st')"
        by (rule Cons.IH) (use p1 k rest_scan r None in simp_all)
      with step None show ?thesis
        by auto
    next
      case (Some e')
      with rest_scan r k have sb: "scan_bytes sc' k (drop k (buf ?dec1)) = ScanFail x"
        by simp
      from readValue_loop_in_buf(2) [OF sb, of e st1] step show ?thesis
        by (intro exI [of _ rd1] exI [of _ "buf dec @ p"] exI [of _ st1]) simp
    qed
  qed
qed

lemma readValue_loop_at_end:
  "scan_bytes sc n (drop n (buf dec)) = ScanMore sc' m \<Longrightarrow>
   readValue_loop sc n (Some EOF) dec st =
     (if fst (scanner_step sc' CHR '' '') = scanEnd then ((None, m), dec, st)
      else ((Some (if nonSpace (buf dec) then ErrUnexpectedEOF else EOF), 0),
            dec\<lparr>dec_err := Some (if nonSpace (buf dec) then ErrUnexpectedEOF else EOF)\<rparr>, st))"
  by (subst readValue_loop.simps) (simp add: Let_def)

lemma readValue_loop_ended:
  "pending (dec_r dec) = xs \<Longrightarrow> ends xs \<Longrightarrow> n \<le> length (buf dec) \<Longrightarrow>
   scan_bytes sc n (drop n (buf dec) @ delivered xs) = ScanMore sc' m \<Longrightarrow>
   \<exists>rd' st'. readValue_loop sc n None dec st =
     (if fst (scanner_step sc' CHR '' '') = scanEnd
      then ((None, m), dec\<lparr>dec_r := rd', buf := buf dec @ delivered xs\<rparr>, st')
      else ((Some (if nonSpace (buf dec @ delivered xs) then ErrUnexpectedEOF else EOF), 0),
            dec\<lparr>dec_r := rd', buf := buf dec @ delivered xs,
                dec_err := Some (if nonSpace (buf dec @ delivered xs)
                                 then ErrUnexpectedEOF else EOF)\<rparr>, st'))"
proof (induction xs arbitrary: dec st sc n)
  case Nil
  then have sb: "scan_bytes sc n (drop n (buf dec)) = ScanMore sc' m"
    by simp
  with scan_bytes_count [where sc = sc and n = n and a = "drop n (buf dec)"] Nil.prems(3)
  have m: "m = length (buf dec)"
    by simp
  from Nil refill_exhausted [of dec st] obtain rd1 st1 where
    rf: "refill dec st = (Some EOF, dec\<lparr>dec_r := rd1\<rparr>, st1)"
    by auto
  let ?dec1 = "dec\<lparr>dec_r := rd1\<rparr>"
  have step: "readValue_loop sc n None dec st = readValue_loop sc' m (Some EOF) ?dec1 st1"
    by (subst readValue_loop.simps) (simp add: sb rf)
  have "scan_bytes sc' m (drop m (buf ?dec1)) = ScanMore sc' m"
    by (simp add: m)
  from readValue_loop_at_end [OF this, of st1] step show ?case
    by (intro exI [of _ rd1] exI [of _ st1]) simp
next
  case (Cons r others)
  obtain p e where r: "r = (p, e)"
    by (cases r) auto
  note whole = Cons.prems(4) [unfolded scan_bytes_append]
  show ?case
  proof (cases "scan_bytes sc n (drop n (buf dec))")
    case (ScanDone k)
    with whole show ?thesis by simp
  next
    case (ScanFail y)
    with whole show ?thesis by simp
  next
    case (ScanMore sc1 k)
    with scan_bytes_count [where sc = sc and n = n and a = "drop n (buf dec)"] Cons.prems(3)
    have k: "k = length (buf dec)"
      by simp
    from whole ScanMore have rest_scan: "scan_bytes sc1 k (delivered (r # others)) = ScanMore sc' m"
      by simp
    from Cons.prems(1) r have pd: "pending (dec_r dec) = (p, e) # others"
      by simp
    from refill_pending [OF pd, of st] obtain rd1 st1 where
      rf: "refill dec st = (e, dec\<lparr>dec_r := rd1, buf := buf dec @ p\<rparr>, st1)"
      and p1: "pending rd1 = others"
      by blast
    let ?dec1 = "dec\<lparr>dec_r := rd1, buf := buf dec @ p\<rparr>"
    have step: "readValue_loop sc n None dec st = readValue_loop sc1 k e ?dec1 st1"
      by (subst readValue_loop.simps) (simp add: ScanMore rf)
    show ?thesis
    proof (cases e)
      case None
      have "\<exists>rd' st'. readValue_loop sc1 k None ?dec1 st1 =
         (if fst (scanner_step sc' CHR '' '') = scanEnd
          then ((None, m), ?dec1\<lparr>dec_r := rd', buf := buf ?dec1 @ delivered others\<rparr>, st')
          else ((Some (if nonSpace (buf ?dec1 @ delivered others) then ErrUnexpectedEOF else EOF), 0),
                ?dec1\<lparr>dec_r := rd', buf := buf ?dec1 @ delivered others,
                    dec_err := Some (if nonSpace (buf ?dec1 @ delivered others)
                                     then ErrUnexpectedEOF else EOF)\<rparr>, st'))"
        by (rule Cons.IH) (use p1 k rest_scan r None Cons.prems(2) in simp_all)
      then obtain rd' st' where "readValue_loop sc1 k None ?dec1 st1 =
         (if fst (scanner_step sc' CHR '' '') = scanEnd
          then ((None, m), ?dec1\<lparr>dec_r := rd', buf := buf ?dec1 @ delivered others\<rparr>, st')
          else ((Some (if nonSpace (buf ?dec1 @ delivered others) then ErrUnexpectedEOF else EOF), 0),
                ?dec1\<lparr>dec_r := rd', buf := buf ?dec1 @ delivered others,
                    dec_err := Some (if nonSpace (buf ?dec1 @ delivered others)
                                     then ErrUnexpectedEOF else EOF)\<rparr>, st'))"
        by blast
      with step None r show ?thesis
        by (intro exI [of _ rd'] exI [of _ st']) simp
    next
      case (Some e')
      with Cons.prems(2) r have e': "e' = EOF"
        by simp
      from Some rest_scan r k have sb: "scan_bytes sc1 k (drop k (buf ?dec1)) = ScanMore sc' m"
        by simp
      from readValue_loop_at_end [OF sb, of st1] step Some e' r show ?thesis
        by (intro exI [of _ rd1] exI [of _ st1]) simp
    qed
  qed
qed

lemma ahead_all: "ahead (ends (pending rd)) rd [] (delivered (pending rd))"
  by (simp add: ahead_def)

lemma ahead_weaken: "ahead ex rd b str \<Longrightarrow> ahead False rd b str"
  by (auto simp: ahead_def)

lemma ahead_prefix: "ahead False rd b (str @ trailer) \<Longrightarrow> ahead False rd b str"
  by (auto simp: ahead_def)

lemma peek_ahead:
  assumes "ahead ex (dec_r dec) (buf dec) str" and "dropWhile isSpace str = c # cs"
  shows "\<exists>rd' b' st'. peek dec st = (Inr c, dec\<lparr>dec_r := rd', buf := c # b'\<rparr>, st') \<and>
     ahead ex rd' (c # b') (c # cs)"
proof -
  from assms(1) obtain tail0 where
    e: "buf dec @ delivered (pending (dec_r dec)) = str @ tail0"
    and x: "ex \<longrightarrow> tail0 = [] \<and> ends (pending (dec_r dec))"
    by (auto simp: ahead_def)
  have "dropWhile isSpace (buf dec @ delivered (pending (dec_r dec))) = c # cs @ tail0"
    using dropWhile_found [OF assms(2), of tail0] e by simp
  from peek_loop_found [OF refl this, of st] obtain rd' b' st' tail where
    pk: "peek_loop None dec st = (Inr c, dec\<lparr>dec_r := rd', buf := c # b'\<rparr>, st')"
    and e': "b' @ delivered (pending rd') = (cs @ tail0) @ tail"
    and x': "ends (pending (dec_r dec)) \<longrightarrow> tail = [] \<and> ends (pending rd')"
    by blast
  have "ahead ex rd' (c # b') (c # cs)"
    unfolding ahead_def using e' x x' by (intro exI [of _ "tail0 @ tail"]) simp
  with pk show ?thesis
    by (auto simp: peek_def)
qed

lemma peek_ended:
  assumes "ahead True (dec_r dec) (buf dec) str" and "spaces str"
  shows "\<exists>dec' st'. peek dec st = (Inl EOF, dec', st')"
proof -
  from assms(1) have e: "buf dec @ delivered (pending (dec_r dec)) = str"
    and x: "ends (pending (dec_r dec))"
    by (auto simp: ahead_def)
  from peek_loop_nothing [OF refl, of dec st] e assms(2) ends_first_error [OF x]
  show ?thesis
    by (simp add: peek_def)
qed

lemma readValue_ahead:
  assumes "ahead ex (dec_r dec) (buf dec) str"
    and "scan_bytes scanner_reset 0 str = ScanDone m"
  shows "\<exists>rd' b' st'. readValue dec st = ((None, m), dec\<lparr>dec_r := rd', buf := b'\<rparr>, st') \<and>
     ahead ex rd' b' str \<and> m \<le> length b'"
proof -
  from assms(1) obtain tail0 where
    e: "buf dec @ delivered (pending (dec_r dec)) = str @ tail0"
    and x: "ex \<longrightarrow> tail0 = [] \<and> ends (pending (dec_r dec))"
    by (auto simp: ahead_def)
  have "scan_bytes scanner_reset 0 (drop 0 (buf dec) @ delivered (pending (dec_r dec))) = ScanDone m"
    using e assms(2) by (simp add: scan_bytes_append)
  from readValue_loop_done [OF refl _ this, of st] obtain rd' b' st' tail where
    rv: "readValue_loop scanner_reset 0 None dec st
           = ((None, m), dec\<lparr>dec_r := rd', buf := b'\<rparr>, st')"
    and len: "m \<le> length b'"
    and e': "b' @ delivered (pending rd') = buf dec @ delivered (pending (dec_r dec)) @ tail"
    and x': "ends (pending (dec_r dec)) \<longrightarrow> tail = [] \<and> ends (pending rd')"
    by auto
  have "ahead ex rd' b' str"
    unfolding ahead_def using e e' x x' by (intro exI [of _ "tail0 @ tail"]) simp
  with rv len show ?thesis
    by (auto simp: readValue_def)
qed

lemma readValue_ahead_fail:
  assumes "ahead ex (dec_r dec) (buf dec) str"
    and "scan_bytes scanner_reset 0 str = ScanFail x"
  shows "\<exists>rd' b' st'. readValue dec st
           = ((x, 0), dec\<lparr>dec_r := rd', buf := b', dec_err := x\<rparr>, st')"
proof -
  from assms(1) obtain tail0 where
    e: "buf dec @ delivered (pending (dec_r dec)) = str @ tail0"
    by (auto simp: ahead_def)
  have "scan_bytes scanner_reset 0 (drop 0 (buf dec) @ delivered (pending (dec_r dec))) = ScanFail x"
    using e assms(2) by (simp add: scan_bytes_append)
  from readValue_loop_failed [OF refl _ this, of st] show ?thesis
    by (auto simp: readValue_def)
qed

lemma readValue_ended:
  assumes "ahead True (dec_r dec) (buf dec) str"
    and "scan_bytes scanner_reset 0 str = ScanMore sc m"
  shows "\<exists>rd' st'. readValue dec st =
     (if fst (scanner_step sc CHR '' '') = scanEnd
      then ((None, m), dec\<lparr>dec_r := rd', buf := str\<rparr>, st')
      else ((Some (if nonSpace str then ErrUnexpectedEOF else EOF), 0),
            dec\<lparr>dec_r := rd', buf := str,
                dec_err := Some (if nonSpace str then ErrUnexpectedEOF else EOF)\<rparr>, st'))"
proof -
  from assms(1) have e: "buf dec @ delivered (pending (dec_r dec)) = str"
    and x: "ends (pending (dec_r dec))"
    by (auto simp: ahead_def)
  have "scan_bytes scanner_reset 0 (drop 0 (buf dec) @ delivered (pending (dec_r dec))) = ScanMore sc m"
    using e assms(2) by simp
  from readValue_loop_ended [OF refl x le0 this, of st, unfolded e] show ?thesis
    unfolding readValue_def .
qed

lemma ahead_drop:
  assumes "ahead ex rd b (x @ str)" and "length x \<le> length b"
  shows "take (length x) b = x \<and> ahead ex rd (drop (length x) b) str"
proof -
  from assms(1) obtain tail where
    e: "b @ delivered (pending rd) = (x @ str) @ tail"
    and x: "ex \<longrightarrow> tail = [] \<and> ends (pending rd)"
    by (auto simp: ahead_def)
  from e assms(2) have t: "take (length x) b = x"
    by (metis append.assoc append_eq_append_conv_if append_eq_conv_conj)
  with e have "drop (length x) b @ delivered (pending rd) = str @ tail"
    by (metis append_assoc append_take_drop_id same_append_eq)
  with x t show ?thesis
    by (auto simp: ahead_def)
qed

lemma ahead_tl: "ahead ex rd (c # b) (c # str) \<Longrightarrow> ahead ex rd b str"
  by (auto simp: ahead_def)

lemma prepare_ahead:
  assumes "tokenState dec = array_state first"
    and "ahead ex (dec_r dec) (buf dec) (separator first @ str)"
  shows "\<exists>rd1 b1 st1. tokenPrepareForDecode dec st
           = (None, dec\<lparr>dec_r := rd1, buf := b1,
                tokenState := (if first then tokenArrayStart else tokenArrayValue)\<rparr>, st1) \<and>
         ahead ex rd1 b1 str"
proof (cases first)
  case True
  with assms have "tokenPrepareForDecode dec st = (None, dec, st)"
    by (simp add: tokenPrepareForDecode_def array_state_def)
  moreover have "dec = dec\<lparr>dec_r := dec_r dec, buf := buf dec, tokenState := tokenArrayStart\<rparr>"
    using assms(1) True by (simp add: array_state_def)
  ultimately show ?thesis
    using assms(2) True
    by (intro exI [of _ "dec_r dec"] exI [of _ "buf dec"] exI [of _ st])
       (simp add: separator_def)
next
  case False
  with assms(2) have a: "ahead ex (dec_r dec) (buf dec) (CHR '','' # str)"
    by (simp add: separator_def)
  have "dropWhile isSpace (CHR '','' # str) = CHR '','' # str"
    by (simp add: isSpace_def)
  from peek_ahead [OF a this, of st] obtain rd1 b1 st1 where
    pk: "peek dec st = (Inr CHR '','', dec\<lparr>dec_r := rd1, buf := CHR '','' # b1\<rparr>, st1)"
    and a1: "ahead ex rd1 (CHR '','' # b1) (CHR '','' # str)"
    by blast
  from pk assms(1) False
  have "tokenPrepareForDecode dec st
      = (None, dec\<lparr>dec_r := rd1, buf := b1, tokenState := tokenArrayValue\<rparr>, st1)"
    by (simp add: tokenPrepareForDecode_def array_state_def)
  with ahead_tl [OF a1] False show ?thesis
    by auto
qed

lemma Decode_ahead:
  assumes "dec_err dec = None"
    and "tokenState dec = array_state first"
    and "ahead ex (dec_r dec) (buf dec) (separator first @ x @ str)"
    and "scan_bytes scanner_reset 0 x = ScanDone (length x)"
  shows "\<exists>rd' b' st'. Decode unmarshal dec st
           = (unmarshal x, dec\<lparr>dec_r := rd', buf := b', tokenState := tokenArrayComma\<rparr>, st') \<and>
         ahead ex rd' b' str"
proof -
  from prepare_ahead [OF assms(2,3), of st] obtain rd1 b1 st1 where
    pr: "tokenPrepareForDecode dec st
           = (None, dec\<lparr>dec_r := rd1, buf := b1,
                tokenState := (if first then tokenArrayStart else tokenArrayValue)\<rparr>, st1)"
    and a1: "ahead ex rd1 b1 (x @ str)"
    by blast
  let ?dec1 = "dec\<lparr>dec_r := rd1, buf := b1,
                tokenState := (if first then tokenArrayStart else tokenArrayValue)\<rparr>"
  have a1': "ahead ex (dec_r ?dec1) (buf ?dec1) (x @ str)"
    using a1 by simp
  have "scan_bytes scanner_reset 0 (x @ str) = ScanDone (length x)"
    using assms(4) by (simp add: scan_bytes_append)
  from readValue_ahead [OF a1' this, of st1] obtain rd2 b2 st2 where
    rv: "readValue ?dec1 st1 = ((None, length x), ?dec1\<lparr>dec_r := rd2, buf := b2\<rparr>, st2)"
    and a2: "ahead ex rd2 b2 (x @ str)" and len: "length x \<le> length b2"
    by auto
  note dr = ahead_drop [OF a2 len]
  have "Decode unmarshal dec st
      = (unmarshal x,
         dec\<lparr>dec_r := rd2, buf := drop (length x) b2, tokenState := tokenArrayComma\<rparr>, st2)"
    using assms(1) pr rv dr
    by (simp add: Decode_def tokenValueAllowed_def tokenValueEnd_def)
  with dr show ?thesis
    by blast
qed

lemma Decode_fails:
  assumes "dec_err dec = None"
    and "tokenState dec = array_state first"
    and "ahead ex (dec_r dec) (buf dec) (separator first @ z)"
    and "decode_fails unmarshal z ex e"
  shows "\<exists>dec' st'. Decode unmarshal dec st = (Inl e, dec', st')"
proof -
  from prepare_ahead [OF assms(2,3), of st] obtain rd1 b1 st1 where
    pr: "tokenPrepareForDecode dec st
           = (None, dec\<lparr>dec_r := rd1, buf := b1,
                tokenState := (if first then tokenArrayStart else tokenArrayValue)\<rparr>, st1)"
    and a1: "ahead ex rd1 b1 z"
    by blast
  let ?dec1 = "dec\<lparr>dec_r := rd1, buf := b1,
                tokenState := (if first then tokenArrayStart else tokenArrayValue)\<rparr>"
  have a1': "ahead ex (dec_r ?dec1) (buf ?dec1) z"
    using a1 by simp
  show ?thesis
  proof (cases "scan_bytes scanner_reset 0 z")
    case (ScanFail x)
    with assms(4) have x: "x = Some e"
      by (simp add: decode_fails_def)
    from readValue_ahead_fail [OF a1' ScanFail, of st1] obtain rd2 b2 st2 where
      rv: "readValue ?dec1 st1
           = ((Some e, 0), ?dec1\<lparr>dec_r := rd2, buf := b2, dec_err := Some e\<rparr>, st2)"
      using x by auto
    show ?thesis
      using assms(1) pr rv by (simp add: Decode_def tokenValueAllowed_def)
  next
    case (ScanDone n)
    with assms(4) have um: "unmarshal (take n z) = Inl e"
      by (simp add: decode_fails_def)
    from readValue_ahead [OF a1' ScanDone, of st1] obtain rd2 b2 st2 where
      rv: "readValue ?dec1 st1 = ((None, n), ?dec1\<lparr>dec_r := rd2, buf := b2\<rparr>, st2)"
      and a2: "ahead ex rd2 b2 z" and len: "n \<le> length b2"
      by auto
    from a2 obtain tail where "b2 @ delivered (pending rd2) = z @ tail"
      by (auto simp: ahead_def)
    with len have "take n b2 = take n (z @ tail)"
      by (metis append_eq_conv_conj take_append diff_is_0_eq' take_0 append_Nil2)
    moreover from scan_bytes_count [where sc = scanner_reset and n = 0 and a = z] ScanDone
    have "n \<le> length z"
      by simp
    ultimately have tk: "take n b2 = take n z"
      by simp
    show ?thesis
      using assms(1) pr rv um tk by (simp add: Decode_def tokenValueAllowed_def)
  next
    case (ScanMore sc n)
    with assms(4) have ex: "ex"
      and r: "if fst (scanner_step sc CHR '' '') = scanEnd then unmarshal z = Inl e
           else e = (if nonSpace z then ErrUnexpectedEOF else EOF)"
      by (simp_all add: decode_fails_def)
    from a1' ex have a1'': "ahead True (dec_r ?dec1) (buf ?dec1) z"
      by simp
    from scan_bytes_count [where sc = scanner_reset and n = 0 and a = z] ScanMore
    have n: "n = length z"
      by simp
    from readValue_ended [OF a1'' ScanMore, of st1] obtain rd2 st2 where
      rv: "readValue ?dec1 st1 =
       (if fst (scanner_step sc CHR '' '') = scanEnd
        then ((None, n), ?dec1\<lparr>dec_r := rd2, buf := z\<rparr>, st2)
        else ((Some (if nonSpace z then ErrUnexpectedEOF else EOF), 0),
              ?dec1\<lparr>dec_r := rd2, buf := z,
                  dec_err := Some (if nonSpace z then ErrUnexpectedEOF else EOF)\<rparr>, st2))"
      by blast
    show ?thesis
    proof (cases "fst (scanner_step sc CHR '' '') = scanEnd")
      case True
      with rv r assms(1) pr n show ?thesis
        by (simp add: Decode_def tokenValueAllowed_def)
    next
      case False
      with rv r assms(1) pr show ?thesis
        by (simp add: Decode_def tokenValueAllowed_def)
    qed
  qed
qed

lemma More_ahead:
  "ahead ex (dec_r dec) (buf dec) str \<Longrightarrow> dropWhile isSpace str = c # cs \<Longrightarrow>
   \<exists>rd' b' st'. More dec st
      = (c \<noteq> CHR '']'' \<and> c \<noteq> CHR ''}'', dec\<lparr>dec_r := rd', buf := c # b'\<rparr>, st') \<and>
     ahead ex rd' (c # b') (c # cs)"
proof -
  assume "ahead ex (dec_r dec) (buf dec) str" "dropWhile isSpace str = c # cs"
  from peek_ahead [OF this, of st] obtain rd' b' st' where
    "peek dec st = (Inr c, dec\<lparr>dec_r := rd', buf := c # b'\<rparr>, st')"
    "ahead ex rd' (c # b') (c # cs)"
    by blast
  then show ?thesis
    by (intro exI [of _ rd'] exI [of _ b'] exI [of _ st']) (simp add: More_def)
qed

lemma dropWhile_spaces: "spaces a \<Longrightarrow> dropWhile isSpace (a @ x) = dropWhile isSpace x"
  by (simp add: spaces_def list_all_iff)

lemma scan_first_byte:
  "scan_bytes scanner_reset 0 (c # cs) = ScanDone m \<Longrightarrow> c \<noteq> CHR '']'' \<and> c \<noteq> CHR ''}''"
  by (auto simp: scanner_step_def scanner_reset_def stateBeginValue_def scanner_error_def
      isSpace_def split: if_splits)

lemma value_text_hd:
  "value_text v \<Longrightarrow> \<exists>c cs. v = c # cs \<and> \<not> isSpace c \<and> c \<noteq> CHR '']'' \<and> c \<noteq> CHR ''}''"
proof (cases v)
  case Nil
  assume "value_text v"
  with Nil show ?thesis by (simp add: value_text_def)
next
  case (Cons c cs)
  assume "value_text v"
  with Cons have "\<not> isSpace c" "scan_bytes scanner_reset 0 (c # cs) = ScanDone (length v)"
    by (simp_all add: value_text_def)
  with scan_first_byte [of c cs "length v"] Cons show ?thesis
    by blast
qed

lemma scan_spaces_value:
  "spaces b \<Longrightarrow> scan_bytes scanner_reset 0 v = R \<Longrightarrow>
     scan_bytes scanner_reset 0 (b @ v) =
       (case R of ScanDone m \<Rightarrow> ScanDone (m + length b) | ScanFail e \<Rightarrow> ScanFail e
        | ScanMore sc' m \<Rightarrow> ScanMore sc' (m + length b))"
  using scan_bytes_spaces [of b 0 v] scan_bytes_shift [where sc = scanner_reset and n = 0 and k = "length b" and a = v]
  by simp

lemma loop_prefix:
  assumes "record_texts (into_Card json) first es cards"
    and "ahead ex (dec_r dec) (buf dec) (elems_text first es @ tailtext)"
    and "tokenState dec = array_state first"
    and "dec_err dec = None"
  shows "\<exists>new dec2 st2.
           card_calls (calls st2) = card_calls (calls st) @ new \<and>
           map fst new = take (length new) cards \<and>
           ((\<exists>e. new \<noteq> [] \<and> snd (last new) = Some e \<and>
                 ProcessBulkDataStream_loop json cb dec st = (Some e, dec2, st2)) \<or>
            ((\<forall>x \<in> set new. snd x = None) \<and> length new = length cards \<and>
             ProcessBulkDataStream_loop json cb dec st = ProcessBulkDataStream_loop json cb dec2 st2 \<and>
             ahead ex (dec_r dec2) (buf dec2) tailtext \<and>
             tokenState dec2 = array_state (first \<and> es = []) \<and>
             dec_err dec2 = None \<and> tokenStack dec2 = tokenStack dec))"
  using assms
proof (induction es arbitrary: first cards dec st)
  case Nil
  then show ?case
    by (intro exI [of _ "[]"] exI [of _ dec] exI [of _ st]) simp
next
  case (Cons el es)
  obtain a b v where el: "el = (a, b, v)"
    by (cases el) auto
  from Cons.prems(1) el obtain c cs where cards: "cards = c # cs"
    and sp: "spaces a" "spaces b" and vt: "value_text v"
    and um: "into_Card json ((if first then [] else b) @ v) = Inr c"
    and rest_ok: "record_texts (into_Card json) False es cs"
    by (auto split: list.splits)
  let ?x = "(if first then [] else b) @ v"
  let ?rest = "elems_text False es @ tailtext"
  from value_text_hd [OF vt] obtain v0 vs where v: "v = v0 # vs"
    and v0: "\<not> isSpace v0" "v0 \<noteq> CHR '']''" "v0 \<noteq> CHR ''}''"
    by blast
  have dw: "\<exists>c0 cs0. dropWhile isSpace (elems_text first (el # es) @ tailtext) = c0 # cs0 \<and>
            c0 # cs0 = separator first @ ?x @ ?rest \<and> c0 \<noteq> CHR '']'' \<and> c0 \<noteq> CHR ''}''"
  proof (cases first)
    case True
    then show ?thesis
      using sp v v0 by (simp add: el separator_def dropWhile_spaces)
  next
    case False
    then show ?thesis
      using sp by (simp add: el separator_def dropWhile_spaces isSpace_def)
  qed
  then obtain c0 cs0 where
    dw1: "dropWhile isSpace (elems_text first (el # es) @ tailtext) = c0 # cs0"
    and dw2: "c0 # cs0 = separator first @ ?x @ ?rest"
    and c0: "c0 \<noteq> CHR '']''" "c0 \<noteq> CHR ''}''"
    by blast
  from More_ahead [OF Cons.prems(2) dw1, of st] c0 obtain rd1 b1 st1 where
    m: "More dec st = (True, dec\<lparr>dec_r := rd1, buf := c0 # b1\<rparr>, st1)"
    and a1: "ahead ex rd1 (c0 # b1) (c0 # cs0)"
    by auto
  let ?dec1 = "dec\<lparr>dec_r := rd1, buf := c0 # b1\<rparr>"
  have sx: "scan_bytes scanner_reset 0 ?x = ScanDone (length ?x)"
    using vt sp(2) scan_spaces_value [of b v] by (auto simp: value_text_def)
  have a1': "ahead ex (dec_r ?dec1) (buf ?dec1) (separator first @ ?x @ ?rest)"
    using a1 dw2 by simp
  from Decode_ahead [OF _ _ a1' sx, of "into_Card json" st1] Cons.prems(3,4) um
  obtain rd2 b2 st2 where
    d: "Decode (into_Card json) ?dec1 st1
          = (Inr c, ?dec1\<lparr>dec_r := rd2, buf := b2, tokenState := tokenArrayComma\<rparr>, st2)"
    and a2: "ahead ex rd2 b2 ?rest"
    by auto
  let ?dec2 = "?dec1\<lparr>dec_r := rd2, buf := b2, tokenState := tokenArrayComma\<rparr>"
  have q: "card_calls (calls st2) = card_calls (calls st)"
    using More_quiet [OF m] Decode_quiet [OF d] by (simp add: quiet_def)
  obtain e st3 where cbr: "call_cardCallback cb c st2 = (e, st3)"
    by (cases "call_cardCallback cb c st2") auto
  note eff = call_cardCallback_effect [OF cbr]
  show ?case
  proof (cases e)
    case (Some x)
    have "ProcessBulkDataStream_loop json cb dec st = (Some x, ?dec2, st3)"
      by (subst ProcessBulkDataStream_loop.simps) (simp add: m d cbr Some)
    then show ?thesis
      using q eff [THEN conjunct1] Some cards
      by (intro exI [of _ "[(c, Some x)]"] exI [of _ ?dec2] exI [of _ st3]) simp
  next
    case None
    have step: "ProcessBulkDataStream_loop json cb dec st
        = ProcessBulkDataStream_loop json cb ?dec2 st3"
      by (subst ProcessBulkDataStream_loop.simps) (simp add: m d cbr None)
    have "\<exists>new dec3 st4.
           card_calls (calls st4) = card_calls (calls st3) @ new \<and>
           map fst new = take (length new) cs \<and>
           ((\<exists>e. new \<noteq> [] \<and> snd (last new) = Some e \<and>
                 ProcessBulkDataStream_loop json cb ?dec2 st3 = (Some e, dec3, st4)) \<or>
            ((\<forall>x \<in> set new. snd x = None) \<and> length new = length cs \<and>
             ProcessBulkDataStream_loop json cb ?dec2 st3 = ProcessBulkDataStream_loop json cb dec3 st4 \<and>
             ahead ex (dec_r dec3) (buf dec3) tailtext \<and>
             tokenState dec3 = array_state (False \<and> es = []) \<and>
             dec_err dec3 = None \<and> tokenStack dec3 = tokenStack ?dec2))"
      by (rule Cons.IH [OF rest_ok]) (use a2 Cons.prems(4) in \<open>simp_all add: array_state_def\<close>)
    then obtain new dec3 st4 where
      n1: "card_calls (calls st4) = card_calls (calls st3) @ new"
      and n2: "map fst new = take (length new) cs"
      and n3: "(\<exists>e. new \<noteq> [] \<and> snd (last new) = Some e \<and>
                 ProcessBulkDataStream_loop json cb ?dec2 st3 = (Some e, dec3, st4)) \<or>
            ((\<forall>x \<in> set new. snd x = None) \<and> length new = length cs \<and>
             ProcessBulkDataStream_loop json cb ?dec2 st3 = ProcessBulkDataStream_loop json cb dec3 st4 \<and>
             ahead ex (dec_r dec3) (buf dec3) tailtext \<and>
             tokenState dec3 = array_state (False \<and> es = []) \<and>
             dec_err dec3 = None \<and> tokenStack dec3 = tokenStack ?dec2)"
      by blast
    have c1: "card_calls (calls st4) = card_calls (calls st) @ ((c, None) # new)"
      using n1 q eff [THEN conjunct1] None by simp
    have c2: "map fst ((c, None) # new) = take (length ((c, None) # new)) cards"
      using n2 cards by simp
    from n3 show ?thesis
    proof
      assume "\<exists>e. new \<noteq> [] \<and> snd (last new) = Some e \<and>
                 ProcessBulkDataStream_loop json cb ?dec2 st3 = (Some e, dec3, st4)"
      then show ?thesis
        using c1 c2 step
        by (intro exI [of _ "(c, None) # new"] exI [of _ dec3] exI [of _ st4]) auto
    next
      assume "(\<forall>x \<in> set new. snd x = None) \<and> length new = length cs \<and>
             ProcessBulkDataStream_loop json cb ?dec2 st3 = ProcessBulkDataStream_loop json cb dec3 st4 \<and>
             ahead ex (dec_r dec3) (buf dec3) tailtext \<and>
             tokenState dec3 = array_state (False \<and> es = []) \<and>
             dec_err dec3 = None \<and> tokenStack dec3 = tokenStack ?dec2"
      then show ?thesis
        using c1 c2 step cards
        by (intro exI [of _ "(c, None) # new"] exI [of _ dec3] exI [of _ st4]) (simp add: array_state_def)
    qed
  qed
qed

lemma Token_open:
  assumes "ahead ex rd [] (w0 @ CHR ''['' # str)" and "spaces w0"
  shows "\<exists>rd1 b1 st1. Token u (NewDecoder rd) st
           = (Inr (Delim CHR ''[''),
              \<lparr>dec_r = rd1, buf = b1, dec_err = None, tokenState = tokenArrayStart,
               tokenStack = [tokenTopValue]\<rparr>, st1) \<and>
         ahead ex rd1 b1 str"
proof -
  have a: "ahead ex (dec_r (NewDecoder rd)) (buf (NewDecoder rd)) (w0 @ CHR ''['' # str)"
    using assms(1) by (simp add: NewDecoder_def)
  have "dropWhile isSpace (w0 @ CHR ''['' # str) = CHR ''['' # str"
    using assms(2) by (simp add: dropWhile_spaces isSpace_def)
  from peek_ahead [OF a this, of st] obtain rd1 b1 st1 where
    pk: "peek (NewDecoder rd) st
           = (Inr CHR ''['', (NewDecoder rd)\<lparr>dec_r := rd1, buf := CHR ''['' # b1\<rparr>, st1)"
    and a1: "ahead ex rd1 (CHR ''['' # b1) (CHR ''['' # str)"
    by blast
  have "Token u (NewDecoder rd) st
           = (Inr (Delim CHR ''[''),
              \<lparr>dec_r = rd1, buf = b1, dec_err = None, tokenState = tokenArrayStart,
               tokenStack = [tokenTopValue]\<rparr>, st1)"
    apply (subst Token.simps)
    apply (simp only: pk prod.case sum.case)
    apply (simp add: tokenValueAllowed_def NewDecoder_def)
    done
  with ahead_tl [OF a1] show ?thesis
    by blast
qed

lemma Token_close:
  assumes "ahead ex (dec_r dec) (buf dec) (wz @ CHR '']'' # trailer)" and "spaces wz"
    and "tokenState dec = array_state f" and "tokenStack dec = t # ts"
  shows "\<exists>dec' st'. Token u dec st = (Inr (Delim CHR '']''), dec', st')"
proof -
  have "dropWhile isSpace (wz @ CHR '']'' # trailer) = CHR '']'' # trailer"
    using assms(2) by (simp add: dropWhile_spaces isSpace_def)
  from peek_ahead [OF assms(1) this, of st] obtain rd1 b1 st1 where
    pk: "peek dec st = (Inr CHR '']'', dec\<lparr>dec_r := rd1, buf := CHR '']'' # b1\<rparr>, st1)"
    by blast
  show ?thesis
    apply (subst Token.simps)
    apply (simp only: pk prod.case sum.case)
    apply (simp add: assms(3,4) array_state_def)
    done
qed

lemma loop_at_close:
  assumes "ahead ex (dec_r dec) (buf dec) (wz @ CHR '']'' # trailer)" and "spaces wz"
  shows "\<exists>rd1 b1 st1. ProcessBulkDataStream_loop json cb dec st
           = (None, dec\<lparr>dec_r := rd1, buf := CHR '']'' # b1\<rparr>, st1) \<and>
         ahead ex rd1 (CHR '']'' # b1) (CHR '']'' # trailer) \<and>
         card_calls (calls st1) = card_calls (calls st)"
proof -
  have "dropWhile isSpace (wz @ CHR '']'' # trailer) = CHR '']'' # trailer"
    using assms(2) by (simp add: dropWhile_spaces isSpace_def)
  from More_ahead [OF assms(1) this, of st] obtain rd1 b1 st1 where
    m: "More dec st = (False, dec\<lparr>dec_r := rd1, buf := CHR '']'' # b1\<rparr>, st1)"
    and a1: "ahead ex rd1 (CHR '']'' # b1) (CHR '']'' # trailer)"
    by auto
  have "ProcessBulkDataStream_loop json cb dec st
           = (None, dec\<lparr>dec_r := rd1, buf := CHR '']'' # b1\<rparr>, st1)"
    by (subst ProcessBulkDataStream_loop.simps) (simp add: m)
  with a1 More_quiet [OF m] show ?thesis
    by (auto simp: quiet_def)
qed

lemma Token_at_brace:
  assumes "ahead ex (dec_r dec) (buf dec) (CHR ''}'' # trailer)"
    and "tokenState dec = tokenArrayStart"
  shows "\<exists>dec' st'. Token u dec st
           = (Inl (SyntaxError (Some CHR ''}'') ''looking for beginning of value''), dec', st')"
proof -
  have "dropWhile isSpace (CHR ''}'' # trailer) = CHR ''}'' # trailer"
    by (simp add: isSpace_def)
  from peek_ahead [OF assms(1) this, of st] obtain rd1 b1 st1 where
    pk: "peek dec st = (Inr CHR ''}'', dec\<lparr>dec_r := rd1, buf := CHR ''}'' # b1\<rparr>, st1)"
    by blast
  show ?thesis
    apply (subst Token.simps)
    apply (simp only: pk prod.case sum.case)
    apply (simp add: assms(2) tokenError_def)
    done
qed

lemma loop_at_brace:
  assumes "ahead ex (dec_r dec) (buf dec) (w @ CHR ''}'' # trailer)" and "spaces w"
  shows "\<exists>rd1 b1 st1. ProcessBulkDataStream_loop json cb dec st
           = (None, dec\<lparr>dec_r := rd1, buf := CHR ''}'' # b1\<rparr>, st1) \<and>
         ahead ex rd1 (CHR ''}'' # b1) (CHR ''}'' # trailer) \<and>
         card_calls (calls st1) = card_calls (calls st)"
proof -
  have "dropWhile isSpace (w @ CHR ''}'' # trailer) = CHR ''}'' # trailer"
    using assms(2) by (simp add: dropWhile_spaces isSpace_def)
  from More_ahead [OF assms(1) this, of st] obtain rd1 b1 st1 where
    m: "More dec st = (False, dec\<lparr>dec_r := rd1, buf := CHR ''}'' # b1\<rparr>, st1)"
    and a1: "ahead ex rd1 (CHR ''}'' # b1) (CHR ''}'' # trailer)"
    by auto
  have "ProcessBulkDataStream_loop json cb dec st
           = (None, dec\<lparr>dec_r := rd1, buf := CHR ''}'' # b1\<rparr>, st1)"
    by (subst ProcessBulkDataStream_loop.simps) (simp add: m)
  with a1 More_quiet [OF m] show ?thesis
    by (auto simp: quiet_def)
qed

lemma PBDS_array:
  assumes "delivered (pending rd) = w0 @ ''['' @ elems_text True es @ wz @ '']'' @ trailer"
    and "spaces w0" and "spaces wz"
    and "record_texts (into_Card json) True es cards"
    and "ProcessBulkDataStream json rd cardCallback st = (res, st')"
    and "card_calls (calls st') = card_calls (calls st) @ new"
    and "\<forall>x \<in> set new. snd x = None"
  shows "res = None \<and> map fst new = cards"
proof -
  let ?tail = "wz @ CHR '']'' # trailer"
  let ?ex = "ends (pending rd)"
  have a0: "ahead ?ex rd [] (w0 @ CHR ''['' # elems_text True es @ ?tail)"
    using ahead_all [of rd] assms(1) by simp
  from Token_open [OF a0 assms(2), of "into_any json" st] obtain rd1 b1 st1 where
    t1: "Token (into_any json) (NewDecoder rd) st
           = (Inr (Delim CHR ''[''),
              \<lparr>dec_r = rd1, buf = b1, dec_err = None, tokenState = tokenArrayStart,
               tokenStack = [tokenTopValue]\<rparr>, st1)"
    and a1: "ahead ?ex rd1 b1 (elems_text True es @ ?tail)"
    by blast
  let ?dec1 = "\<lparr>dec_r = rd1, buf = b1, dec_err = None, tokenState = tokenArrayStart,
               tokenStack = [tokenTopValue]\<rparr>"
  have q1: "card_calls (calls st1) = card_calls (calls st)"
    using Token_quiet [OF t1] by (simp add: quiet_def)
  from loop_prefix [OF assms(4), where dec = ?dec1 and tailtext = ?tail and st = st1
      and cb = cardCallback and ex = ?ex] a1
  obtain new1 dec2 st2 where
    n1: "card_calls (calls st2) = card_calls (calls st1) @ new1"
    and n2: "map fst new1 = take (length new1) cards"
    and n3: "(\<exists>e. new1 \<noteq> [] \<and> snd (last new1) = Some e \<and>
                 ProcessBulkDataStream_loop json cardCallback ?dec1 st1 = (Some e, dec2, st2)) \<or>
            ((\<forall>x \<in> set new1. snd x = None) \<and> length new1 = length cards \<and>
             ProcessBulkDataStream_loop json cardCallback ?dec1 st1
               = ProcessBulkDataStream_loop json cardCallback dec2 st2 \<and>
             ahead ?ex (dec_r dec2) (buf dec2) ?tail \<and>
             tokenState dec2 = array_state (True \<and> es = []) \<and>
             dec_err dec2 = None \<and> tokenStack dec2 = tokenStack ?dec1)"
    by (auto simp: array_state_def)
  from n3 show ?thesis
  proof
    assume "\<exists>e. new1 \<noteq> [] \<and> snd (last new1) = Some e \<and>
                 ProcessBulkDataStream_loop json cardCallback ?dec1 st1 = (Some e, dec2, st2)"
    then obtain e where ne: "new1 \<noteq> []" and le: "snd (last new1) = Some e"
      and l: "ProcessBulkDataStream_loop json cardCallback ?dec1 st1 = (Some e, dec2, st2)"
      by blast
    from assms(5) t1 l have "st' = st2"
      by (simp add: ProcessBulkDataStream_def)
    with n1 q1 assms(6) have "new = new1"
      by simp
    with ne le assms(7) show ?thesis
      by (metis last_in_set option.distinct(1))
  next
    assume ok: "(\<forall>x \<in> set new1. snd x = None) \<and> length new1 = length cards \<and>
             ProcessBulkDataStream_loop json cardCallback ?dec1 st1
               = ProcessBulkDataStream_loop json cardCallback dec2 st2 \<and>
             ahead ?ex (dec_r dec2) (buf dec2) ?tail \<and>
             tokenState dec2 = array_state (True \<and> es = []) \<and>
             dec_err dec2 = None \<and> tokenStack dec2 = tokenStack ?dec1"
    from loop_at_close [where dec = dec2 and wz = wz and trailer = trailer and json = json
        and cb = cardCallback and st = st2 and ex = ?ex] ok assms(3)
    obtain rd3 b3 st3 where
      l: "ProcessBulkDataStream_loop json cardCallback dec2 st2
           = (None, dec2\<lparr>dec_r := rd3, buf := CHR '']'' # b3\<rparr>, st3)"
      and a3: "ahead ?ex rd3 (CHR '']'' # b3) (CHR '']'' # trailer)"
      and q3: "card_calls (calls st3) = card_calls (calls st2)"
      by blast
    let ?dec3 = "dec2\<lparr>dec_r := rd3, buf := CHR '']'' # b3\<rparr>"
    have "\<exists>dec4 st4. Token (into_any json) ?dec3 st3 = (Inr (Delim CHR '']''), dec4, st4)"
      by (rule Token_close [where wz = "[]" and trailer = trailer and f = "es = []" and ex = ?ex])
         (use a3 ok in \<open>simp_all add: spaces_def\<close>)
    then obtain dec4 st4 where
      t3: "Token (into_any json) ?dec3 st3 = (Inr (Delim CHR '']''), dec4, st4)"
      by blast
    have q4: "card_calls (calls st4) = card_calls (calls st3)"
      using Token_quiet [OF t3] by (simp add: quiet_def)
    from ok l have l1: "ProcessBulkDataStream_loop json cardCallback ?dec1 st1 = (None, ?dec3, st3)"
      by simp
    from assms(5) t1 l1 t3 have "res = None" "st' = st4"
      by (simp_all add: ProcessBulkDataStream_def)
    moreover from this n1 q1 q3 q4 assms(6) have "new = new1"
      by simp
    ultimately show ?thesis
      using n2 ok by simp
  qed
qed


subsection \<open>An element that cannot be decoded\<close>

lemma loop_at_bad:
  assumes "ahead ex (dec_r dec) (buf dec) (a @ separator f @ b @ y)"
    and "spaces a" and "spaces b"
    and "tokenState dec = array_state f" and "dec_err dec = None"
    and "decode_fails (into_Card json) ((if f then [] else b) @ y) ex e"
    and "f \<longrightarrow> y \<noteq> [] \<and> \<not> isSpace (hd y) \<and> hd y \<noteq> CHR '']'' \<and> hd y \<noteq> CHR ''}''"
  shows "\<exists>dec' st'. ProcessBulkDataStream_loop json cb dec st
           = (Some (WrapError ''decode card object: '' e), dec', st') \<and>
         card_calls (calls st') = card_calls (calls st)"
proof -
  let ?z = "(if f then [] else b) @ y"
  have dw: "\<exists>c0 cs0. dropWhile isSpace (a @ separator f @ b @ y) = c0 # cs0 \<and>
            c0 # cs0 = separator f @ ?z \<and> c0 \<noteq> CHR '']'' \<and> c0 \<noteq> CHR ''}''"
  proof (cases f)
    case True
    with assms(7) obtain y0 ys where "y = y0 # ys" "\<not> isSpace y0" "y0 \<noteq> CHR '']''" "y0 \<noteq> CHR ''}''"
      by (cases y) auto
    with True assms(2,3) show ?thesis
      by (simp add: separator_def dropWhile_spaces)
  next
    case False
    then show ?thesis
      using assms(2) by (simp add: separator_def dropWhile_spaces isSpace_def)
  qed
  then obtain c0 cs0 where
    dw1: "dropWhile isSpace (a @ separator f @ b @ y) = c0 # cs0"
    and dw2: "c0 # cs0 = separator f @ ?z"
    and c0: "c0 \<noteq> CHR '']''" "c0 \<noteq> CHR ''}''"
    by blast
  from More_ahead [OF assms(1) dw1, of st] c0 obtain rd1 b1 st1 where
    m: "More dec st = (True, dec\<lparr>dec_r := rd1, buf := c0 # b1\<rparr>, st1)"
    and a1: "ahead ex rd1 (c0 # b1) (c0 # cs0)"
    by auto
  let ?dec1 = "dec\<lparr>dec_r := rd1, buf := c0 # b1\<rparr>"
  have a1': "ahead ex (dec_r ?dec1) (buf ?dec1) (separator f @ ?z)"
    using a1 dw2 by simp
  from Decode_fails [OF _ _ a1' assms(6), of st1] assms(4,5)
  obtain dec2 st2 where d: "Decode (into_Card json) ?dec1 st1 = (Inl e, dec2, st2)"
    by auto
  have "ProcessBulkDataStream_loop json cb dec st
           = (Some (WrapError ''decode card object: '' e), dec2, st2)"
    by (subst ProcessBulkDataStream_loop.simps) (simp add: m d)
  moreover have "card_calls (calls st2) = card_calls (calls st)"
    using More_quiet [OF m] Decode_quiet [OF d] by (simp add: quiet_def)
  ultimately show ?thesis
    by blast
qed

lemma PBDS_undecodable:
  assumes "delivered (pending rd)
           = w0 @ ''['' @ elems_text True es @ a @ separator (es = []) @ b @ y"
    and "spaces w0" and "spaces a" and "spaces b"
    and "record_texts (into_Card json) True es cards"
    and "decode_fails (into_Card json) ((if es = [] then [] else b) @ y) (ends (pending rd)) e"
    and "es = [] \<longrightarrow> y \<noteq> [] \<and> \<not> isSpace (hd y) \<and> hd y \<noteq> CHR '']''"
    and "ProcessBulkDataStream json rd cardCallback st = (res, st')"
    and "card_calls (calls st') = card_calls (calls st) @ new"
    and "\<forall>x \<in> set new. snd x = None"
  shows "res = Some (WrapError (if es = [] \<and> hd y = CHR ''}'' then ''decode closing bracket: ''
                                else ''decode card object: '') e) \<and>
         map fst new = cards"
proof -
  let ?tail = "a @ separator (es = []) @ b @ y"
  let ?ex = "ends (pending rd)"
  have a0: "ahead ?ex rd [] (w0 @ CHR ''['' # elems_text True es @ ?tail)"
    using ahead_all [of rd] assms(1) by simp
  from Token_open [OF a0 assms(2), of "into_any json" st] obtain rd1 b1 st1 where
    t1: "Token (into_any json) (NewDecoder rd) st
           = (Inr (Delim CHR ''[''),
              \<lparr>dec_r = rd1, buf = b1, dec_err = None, tokenState = tokenArrayStart,
               tokenStack = [tokenTopValue]\<rparr>, st1)"
    and a1: "ahead ?ex rd1 b1 (elems_text True es @ ?tail)"
    by blast
  let ?dec1 = "\<lparr>dec_r = rd1, buf = b1, dec_err = None, tokenState = tokenArrayStart,
               tokenStack = [tokenTopValue]\<rparr>"
  have q1: "card_calls (calls st1) = card_calls (calls st)"
    using Token_quiet [OF t1] by (simp add: quiet_def)
  from loop_prefix [OF assms(5), where dec = ?dec1 and tailtext = ?tail and st = st1
      and cb = cardCallback and ex = ?ex] a1
  obtain new1 dec2 st2 where
    n1: "card_calls (calls st2) = card_calls (calls st1) @ new1"
    and n2: "map fst new1 = take (length new1) cards"
    and n3: "(\<exists>e. new1 \<noteq> [] \<and> snd (last new1) = Some e \<and>
                 ProcessBulkDataStream_loop json cardCallback ?dec1 st1 = (Some e, dec2, st2)) \<or>
            ((\<forall>x \<in> set new1. snd x = None) \<and> length new1 = length cards \<and>
             ProcessBulkDataStream_loop json cardCallback ?dec1 st1
               = ProcessBulkDataStream_loop json cardCallback dec2 st2 \<and>
             ahead ?ex (dec_r dec2) (buf dec2) ?tail \<and>
             tokenState dec2 = array_state (True \<and> es = []) \<and>
             dec_err dec2 = None \<and> tokenStack dec2 = tokenStack ?dec1)"
    by (auto simp: array_state_def)
  from n3 show ?thesis
  proof
    assume "\<exists>e. new1 \<noteq> [] \<and> snd (last new1) = Some e \<and>
                 ProcessBulkDataStream_loop json cardCallback ?dec1 st1 = (Some e, dec2, st2)"
    then obtain e' where ne: "new1 \<noteq> []" and le: "snd (last new1) = Some e'"
      and l: "ProcessBulkDataStream_loop json cardCallback ?dec1 st1 = (Some e', dec2, st2)"
      by blast
    from assms(8) t1 l have "st' = st2"
      by (simp add: ProcessBulkDataStream_def)
    with n1 q1 assms(9) have "new = new1"
      by simp
    with ne le assms(10) show ?thesis
      by (metis last_in_set option.distinct(1))
  next
    assume ok: "(\<forall>x \<in> set new1. snd x = None) \<and> length new1 = length cards \<and>
             ProcessBulkDataStream_loop json cardCallback ?dec1 st1
               = ProcessBulkDataStream_loop json cardCallback dec2 st2 \<and>
             ahead ?ex (dec_r dec2) (buf dec2) ?tail \<and>
             tokenState dec2 = array_state (True \<and> es = []) \<and>
             dec_err dec2 = None \<and> tokenStack dec2 = tokenStack ?dec1"
    show ?thesis
    proof (cases "es = [] \<and> hd y = CHR ''}''")
      case False
      have "\<exists>dec3 st3. ProcessBulkDataStream_loop json cardCallback dec2 st2
           = (Some (WrapError ''decode card object: '' e), dec3, st3) \<and>
         card_calls (calls st3) = card_calls (calls st2)"
        by (rule loop_at_bad [where a = a and b = b and y = y and f = "es = []" and ex = ?ex])
           (use ok assms(3,4,6,7) False in auto)
      then obtain dec3 st3 where
        l: "ProcessBulkDataStream_loop json cardCallback dec2 st2
           = (Some (WrapError ''decode card object: '' e), dec3, st3)"
        and q3: "card_calls (calls st3) = card_calls (calls st2)"
        by blast
      from ok l have "ProcessBulkDataStream_loop json cardCallback ?dec1 st1
           = (Some (WrapError ''decode card object: '' e), dec3, st3)"
        by simp
      with assms(8) t1 have "res = Some (WrapError ''decode card object: '' e)" "st' = st3"
        by (simp_all add: ProcessBulkDataStream_def)
      moreover from this n1 q1 q3 assms(9) have "new = new1"
        by simp
      ultimately show ?thesis
        using n2 ok False by simp
    next
      case True
      then obtain xs where x: "y = CHR ''}'' # xs"
        using assms(7) by (cases y) auto
      from assms(6) True x
      have e: "e = SyntaxError (Some CHR ''}'') ''looking for beginning of value''"
        by (simp add: decode_fails_def scanner_step_def scanner_reset_def stateBeginValue_def
            scanner_error_def isSpace_def)
      have a2: "ahead ?ex (dec_r dec2) (buf dec2) ((a @ b) @ CHR ''}'' # xs)"
        using ok True x by (simp add: separator_def)
      from loop_at_brace [OF a2, where json = json and cb = cardCallback and st = st2] assms(3,4)
      obtain rd3 b3 st3 where
        l: "ProcessBulkDataStream_loop json cardCallback dec2 st2
           = (None, dec2\<lparr>dec_r := rd3, buf := CHR ''}'' # b3\<rparr>, st3)"
        and a3: "ahead ?ex rd3 (CHR ''}'' # b3) (CHR ''}'' # xs)"
        and q3: "card_calls (calls st3) = card_calls (calls st2)"
        by (auto simp: spaces_def)
      let ?dec3 = "dec2\<lparr>dec_r := rd3, buf := CHR ''}'' # b3\<rparr>"
      have "\<exists>dec4 st4. Token (into_any json) ?dec3 st3
           = (Inl (SyntaxError (Some CHR ''}'') ''looking for beginning of value''), dec4, st4)"
        by (rule Token_at_brace [where trailer = xs and ex = ?ex])
           (use a3 ok True in \<open>simp_all add: array_state_def\<close>)
      then obtain dec4 st4 where
        t3: "Token (into_any json) ?dec3 st3 = (Inl e, dec4, st4)"
        using e by blast
      have q4: "card_calls (calls st4) = card_calls (calls st3)"
        using Token_quiet [OF t3] by (simp add: quiet_def)
      from ok l have "ProcessBulkDataStream_loop json cardCallback ?dec1 st1 = (None, ?dec3, st3)"
        by simp
      with assms(8) t1 t3 have "res = Some (WrapError ''decode closing bracket: '' e)" "st' = st4"
        by (simp_all add: ProcessBulkDataStream_def)
      moreover from this n1 q1 q3 q4 assms(9) have "new = new1"
        by simp
      ultimately show ?thesis
        using n2 ok True by simp
    qed
  qed
qed


lemma rejected_decode_fails:
  assumes "rejected unmarshal first b x e" and "spaces b"
  shows "decode_fails unmarshal ((if first then [] else b) @ x @ t) ended e"
proof -
  let ?pre = "if first then [] else b"
  have sp: "spaces ?pre"
    using assms(2) by (simp add: spaces_def)
  from assms(1) consider
    (bad) "scan_bytes scanner_reset 0 x = ScanFail (Some e)"
    | (val) "value_text x" "unmarshal (?pre @ x) = Inl e"
    by (auto simp: rejected_def)
  then show ?thesis
  proof cases
    case bad
    then have "scan_bytes scanner_reset 0 (?pre @ x) = ScanFail (Some e)"
      using scan_spaces_value [OF sp, of x] by simp
    then have "scan_bytes scanner_reset 0 ((?pre @ x) @ t) = ScanFail (Some e)"
      by (simp only: scan_bytes_append scan_outcome.case)
    then show ?thesis
      by (simp add: decode_fails_def)
  next
    case val
    then have "scan_bytes scanner_reset 0 (?pre @ x) = ScanDone (length (?pre @ x))"
      using scan_spaces_value [OF sp, of x] by (simp add: value_text_def)
    then have "scan_bytes scanner_reset 0 ((?pre @ x) @ t) = ScanDone (length (?pre @ x))"
      by (simp only: scan_bytes_append scan_outcome.case)
    with val(2) show ?thesis
      by (simp add: decode_fails_def)
  qed
qed

lemma PBDS_rejected:
  assumes "pending rd = map (\<lambda>p. (p, None)) chunks @ rest"
    and "concat chunks
           = w0 @ ''['' @ elems_text True es @ a @ separator (es = []) @ b @ x @ trailer"
    and "spaces w0" and "spaces a" and "spaces b"
    and "record_texts (into_Card json) True es cards"
    and "rejected (into_Card json) (es = []) b x e"
    and "es = [] \<longrightarrow> x \<noteq> [] \<and> \<not> isSpace (hd x) \<and> hd x \<noteq> CHR '']''"
    and "ProcessBulkDataStream json rd cardCallback st = (res, st')"
    and "card_calls (calls st') = card_calls (calls st) @ new"
    and "\<forall>x \<in> set new. snd x = None"
  shows "res = Some (WrapError (if es = [] \<and> hd x = CHR ''}'' then ''decode closing bracket: ''
                                else ''decode card object: '') e) \<and>
         map fst new = cards"
proof -
  let ?y = "x @ trailer @ delivered rest"
  have d: "delivered (pending rd)
      = w0 @ ''['' @ elems_text True es @ a @ separator (es = []) @ b @ ?y"
    using assms(1,2) by (simp add: delivered_chunks)
  have f: "decode_fails (into_Card json) ((if es = [] then [] else b) @ ?y) (ends (pending rd)) e"
    using rejected_decode_fails [OF assms(7,5)] by simp
  have h: "es = [] \<longrightarrow> ?y \<noteq> [] \<and> \<not> isSpace (hd ?y) \<and> hd ?y \<noteq> CHR '']''"
    using assms(8) by simp
  have "hd ?y = hd x" if "es = []"
    using assms(8) that by simp
  with PBDS_undecodable [OF d assms(3,4,5,6) f h assms(9,10,11)] show ?thesis
    by auto
qed

subsection \<open>Well-formed arrays\<close>

text \<open>
  C1. Let the bytes the reader delivers up to its first error, in any chunks and
  whether the last of them come with \<^verbatim>\<open>nil\<close> or together with \<^verbatim>\<open>io.EOF\<close>, be
  whitespace, \<^verbatim>\<open>[\<close>, \<open>N\<close> record texts separated by commas (with any whitespace
  around them), whitespace and \<^verbatim>\<open>]\<close>; anything may follow. Take a run of
  \<^verbatim>\<open>ProcessBulkDataStream\<close> over it in which no invocation of the record callback
  returned an error (C3 covers the runs in which one did). Then the run returns nil,
  and the records the callback was invoked with (\<open>map fst new\<close>) are exactly the \<open>N\<close>
  records of the array, in their order. The invocations are invocations of the
  callback itself: each result recorded is what the callback returned, and when the
  reader is the stream itself (no progress callback runs in between) the caller's
  variables are what the callback made of them, called on the records one after the
  other. \<open>N\<close> may be 0: the empty array gives no invocation. The function is total, so
  the run does return.
\<close>

theorem array_of_records_delivered:
  assumes "delivered (pending rd) = w0 @ ''['' @ elems_text True es @ wz @ '']'' @ trailer"
    and "spaces w0" and "spaces wz"
    and "record_texts (into_Card json) True es cards"
    and "ProcessBulkDataStream json rd cardCallback st = (res, st')"
    and "card_calls (calls st') = card_calls (calls st) @ new"
    and "\<forall>x \<in> set new. snd x = None"
  shows "res = None \<and> map fst new = cards \<and>
         (\<forall>x \<in> set new. \<exists>s. snd x = fst (cardCallback (fst x) s)) \<and>
         (plain rd \<longrightarrow> vars st' = after_calls cardCallback (vars st) new)"
proof -
  from PBDS_calls [OF assms(5)] assms(6)
  have "(\<forall>x \<in> set new. \<exists>s. snd x = fst (cardCallback (fst x) s)) \<and>
         (plain rd \<longrightarrow> vars st' = after_calls cardCallback (vars st) new)"
    by auto
  with PBDS_array [OF assms] show ?thesis
    by simp
qed

text \<open>
  Two records, the last bytes read together with \<^verbatim>\<open>io.EOF\<close>, and a callback that
  collects them.
\<close>

lemmas text_defs = spaces_def value_text_def separator_def

theorem array_of_records_delivered_witness:
  \<open>ProcessBulkDataStream demo_json (BodyReader two_cards_eof) append_card \<lparr>vars = [], calls = []\<rparr>
     = (None, \<lparr>vars = [''{"id":"a"}'', ''{"id":"b"}''],
               calls = [CardCall ''{"id":"a"}'' None, CardCall ''{"id":"b"}'' None]\<rparr>) \<and>
   record_texts (into_Card demo_json) True two_cards_elems [''{"id":"a"}'', ''{"id":"b"}''] \<and>
   delivered (pending (BodyReader two_cards_eof :: string list reader))
     = ''['' @ elems_text True two_cards_elems @ '']'' \<and>
   after_calls append_card [] [(''{"id":"a"}'', None), (''{"id":"b"}'', None)]
     = [''{"id":"a"}'', ''{"id":"b"}'']\<close>
proof -
  let ?st0 = "\<lparr>vars = [], calls = []\<rparr> :: (string list, string) caller"
  let ?st1 = \<open>\<lparr>vars = [''{"id":"a"}'', ''{"id":"b"}''],
               calls = [CardCall ''{"id":"a"}'' None, CardCall ''{"id":"b"}'' None]\<rparr>
             :: (string list, string) caller\<close>
  have run: \<open>ProcessBulkDataStream demo_json (BodyReader two_cards_eof) append_card ?st0
     = (None, ?st1)\<close>
    by (simp add: run_defs demo_json_def demo_into_Card_def append_card_def
        two_cards_eof_def Let_def)
  have recs: \<open>record_texts (into_Card demo_json) True two_cards_elems [''{"id":"a"}'', ''{"id":"b"}'']\<close>
    by (simp add: two_cards_elems_def text_defs run_defs demo_json_def demo_into_Card_def)
  have tx: \<open>delivered (pending (BodyReader two_cards_eof :: string list reader))
      = [] @ ''['' @ elems_text True two_cards_elems @ [] @ '']'' @ []\<close>
    by (simp add: pending_def two_cards_eof_def two_cards_elems_def separator_def)
  have sp: "spaces []"
    by (simp add: spaces_def)
  have n: \<open>card_calls (calls ?st1)
      = card_calls (calls ?st0) @ [(''{"id":"a"}'', None), (''{"id":"b"}'', None)]\<close>
    by simp
  have ok: \<open>\<forall>x \<in> set [(''{"id":"a"}'', None :: error option), (''{"id":"b"}'', None)]. snd x = None\<close>
    by simp
  have \<open>plain (BodyReader two_cards_eof :: string list reader) \<longrightarrow>
      vars ?st1 = after_calls append_card (vars ?st0)
                    [(''{"id":"a"}'', None), (''{"id":"b"}'', None)]\<close>
    using array_of_records_delivered [OF tx sp sp recs run n ok] by blast
  then have \<open>after_calls append_card [] [(''{"id":"a"}'', None), (''{"id":"b"}'', None)]
     = [''{"id":"a"}'', ''{"id":"b"}'']\<close>
    by (simp add: plain_def)
  with run recs tx show ?thesis
    by simp
qed

subsection \<open>Arrays with an element that cannot be decoded\<close>

text \<open>
  C4. Let the bytes the reader delivers up to its first error be whitespace, \<^verbatim>\<open>[\<close>,
  \<open>k\<close> record texts separated by commas and then, where the next element would stand
  (after a comma when \<open>k > 0\<close>), a text \<open>y\<close> whose decoding fails with \<open>e\<close>: the scanner
  rejects a byte of it; or it begins with a value that \<^verbatim>\<open>json.Unmarshal\<close> rejects as a
  record (a number, say); or the stream ends inside the value. Take a run over it in
  which no invocation of the record callback returned an error. Then the callback
  was invoked with exactly the \<open>k\<close> records before \<open>y\<close>, in order (these, as in C1, are
  invocations of the callback itself, and they stay made), and the run returns \<open>e\<close>
  wrapped: as "decode card object: e"; or, when \<open>k = 0\<close> and \<open>y\<close> starts with a
  closing brace, for which \<^verbatim>\<open>More\<close> ends the loop, as "decode closing bracket: e".
  (When \<open>k = 0\<close>, \<open>y\<close> is taken to start right at its first byte, and not with \<^verbatim>\<open>]\<close>,
  which would close an empty array.) The error \<open>e\<close> is the one the decoder modelled
  here returns, that of \<^verbatim>\<open>scanner.go\<close> and \<^verbatim>\<open>stream.go\<close> in \<^verbatim>\<open>encoding/json\<close>; a
  build of Go that backs the package by \<^verbatim>\<open>encoding/json/v2\<close> may wrap another
  error in the same place.
\<close>

theorem invalid_element_fails_after_delivery:
  assumes "delivered (pending rd)
           = w0 @ ''['' @ elems_text True es @ a @ separator (es = []) @ b @ y"
    and "spaces w0" and "spaces a" and "spaces b"
    and "record_texts (into_Card json) True es cards"
    and "decode_fails (into_Card json) ((if es = [] then [] else b) @ y) (ends (pending rd)) e"
    and "es = [] \<longrightarrow> y \<noteq> [] \<and> \<not> isSpace (hd y) \<and> hd y \<noteq> CHR '']''"
    and "ProcessBulkDataStream json rd cardCallback st = (res, st')"
    and "card_calls (calls st') = card_calls (calls st) @ new"
    and "\<forall>x \<in> set new. snd x = None"
  shows "res = Some (WrapError (if es = [] \<and> hd y = CHR ''}'' then ''decode closing bracket: ''
                                else ''decode card object: '') e) \<and>
         map fst new = cards \<and>
         (\<forall>x \<in> set new. \<exists>s. snd x = fst (cardCallback (fst x) s)) \<and>
         (plain rd \<longrightarrow> vars st' = after_calls cardCallback (vars st) new)"
proof -
  from PBDS_calls [OF assms(8)] assms(9)
  have "(\<forall>x \<in> set new. \<exists>s. snd x = fst (cardCallback (fst x) s)) \<and>
         (plain rd \<longrightarrow> vars st' = after_calls cardCallback (vars st) new)"
    by auto
  with PBDS_undecodable [OF assms] show ?thesis
    by simp
qed

text \<open>
  One record is delivered and kept; then the stream ends inside the second record,
  or the scanner rejects it.
\<close>

theorem invalid_element_fails_after_delivery_witness:
  \<open>ProcessBulkDataStream demo_json (BodyReader cut_body) append_card \<lparr>vars = [], calls = []\<rparr>
     = (Some (WrapError ''decode card object: '' ErrUnexpectedEOF),
        \<lparr>vars = [''{"id":"a"}''], calls = [CardCall ''{"id":"a"}'' None]\<rparr>) \<and>
   decode_fails (into_Card demo_json) ''{"i'' True ErrUnexpectedEOF \<and>
   ends cut_body \<and>
   ProcessBulkDataStream demo_json (BodyReader broken_body) append_card \<lparr>vars = [], calls = []\<rparr>
     = (Some (WrapError ''decode card object: ''
                (SyntaxError (Some CHR '']'') ''looking for beginning of value'')),
        \<lparr>vars = [''{"id":"a"}''], calls = [CardCall ''{"id":"a"}'' None]\<rparr>) \<and>
   decode_fails (into_Card demo_json) ''{"id":]}]'' True
     (SyntaxError (Some CHR '']'') ''looking for beginning of value'') \<and>
   record_texts (into_Card demo_json) True [([], [], ''{"id":"a"}'')] [''{"id":"a"}''] \<and>
   after_calls append_card [] [(''{"id":"a"}'', None)] = [''{"id":"a"}'']\<close>
proof -
  let ?st0 = "\<lparr>vars = [], calls = []\<rparr> :: (string list, string) caller"
  let ?st1 = \<open>\<lparr>vars = [''{"id":"a"}''], calls = [CardCall ''{"id":"a"}'' None]\<rparr>
             :: (string list, string) caller\<close>
  let ?es = \<open>[([], [], ''{"id":"a"}'')] :: (string \<times> string \<times> string) list\<close>
  have run1: \<open>ProcessBulkDataStream demo_json (BodyReader cut_body) append_card ?st0
     = (Some (WrapError ''decode card object: '' ErrUnexpectedEOF), ?st1)\<close>
    by (simp add: run_defs demo_json_def demo_into_Card_def append_card_def cut_body_def Let_def)
  have run2: \<open>ProcessBulkDataStream demo_json (BodyReader broken_body) append_card ?st0
     = (Some (WrapError ''decode card object: ''
                (SyntaxError (Some CHR '']'') ''looking for beginning of value'')), ?st1)\<close>
    by (simp add: run_defs demo_json_def demo_into_Card_def append_card_def broken_body_def
        Let_def)
  have recs: \<open>record_texts (into_Card demo_json) True ?es [''{"id":"a"}'']\<close>
    by (simp add: text_defs run_defs demo_json_def demo_into_Card_def)
  have en: "ends cut_body" "ends broken_body"
    by (simp_all add: cut_body_def broken_body_def)
  have f1: \<open>decode_fails (into_Card demo_json) ''{"i'' True ErrUnexpectedEOF\<close>
    by (simp add: decode_fails_def run_defs)
  have f2: \<open>decode_fails (into_Card demo_json) ''{"id":]}]'' True
     (SyntaxError (Some CHR '']'') ''looking for beginning of value'')\<close>
    by (simp add: decode_fails_def run_defs)
  have tx1: \<open>delivered (pending (BodyReader cut_body :: string list reader))
      = [] @ ''['' @ elems_text True ?es @ [] @ separator (?es = []) @ [] @ ''{"i''\<close>
    by (simp add: pending_def cut_body_def separator_def)
  have tx2: \<open>delivered (pending (BodyReader broken_body :: string list reader))
      = [] @ ''['' @ elems_text True ?es @ [] @ separator (?es = []) @ [] @ ''{"id":]}]''\<close>
    by (simp add: pending_def broken_body_def separator_def)
  have sp: "spaces []"
    by (simp add: spaces_def)
  have f1': \<open>decode_fails (into_Card demo_json) ((if ?es = [] then [] else []) @ ''{"i'')
      (ends (pending (BodyReader cut_body :: string list reader))) ErrUnexpectedEOF\<close>
    using f1 en by (simp add: pending_def)
  have f2': \<open>decode_fails (into_Card demo_json) ((if ?es = [] then [] else []) @ ''{"id":]}]'')
      (ends (pending (BodyReader broken_body :: string list reader)))
      (SyntaxError (Some CHR '']'') ''looking for beginning of value'')\<close>
    using f2 en by (simp add: pending_def)
  have h: \<open>?es = [] \<longrightarrow> z \<noteq> [] \<and> \<not> isSpace (hd z) \<and> hd z \<noteq> CHR '']''\<close> for z :: string
    by simp
  have n: \<open>card_calls (calls ?st1) = card_calls (calls ?st0) @ [(''{"id":"a"}'', None)]\<close>
    by simp
  have ok: \<open>\<forall>x \<in> set [(''{"id":"a"}'', None :: error option)]. snd x = None\<close>
    by simp
  have r1: \<open>plain (BodyReader cut_body :: string list reader) \<longrightarrow>
      vars ?st1 = after_calls append_card (vars ?st0) [(''{"id":"a"}'', None)]\<close>
    using invalid_element_fails_after_delivery [OF tx1 sp sp sp recs f1' h run1 n ok] by blast
  have r2: \<open>map fst [(''{"id":"a"}'', None :: error option)] = [''{"id":"a"}'']\<close>
    using invalid_element_fails_after_delivery [OF tx2 sp sp sp recs f2' h run2 n ok] by blast
  from r1 have \<open>after_calls append_card [] [(''{"id":"a"}'', None)] = [''{"id":"a"}'']\<close>
    by (simp add: plain_def)
  with r2 run1 run2 recs f1 f2 en show ?thesis
    by simp
qed

subsection \<open>Materializing a download\<close>

text \<open>
  \<^verbatim>\<open>DownloadBulkData\<close> runs \<^verbatim>\<open>DownloadBulkDataStream\<close> with a callback that appends
  each record to a slice and never fails, and without a progress callback.
\<close>

lemma after_calls_append_card: "after_calls append_card s new = s @ map fst new"
  unfolding after_calls_def
  by (induction new arbitrary: s) (simp_all add: append_card_def)

lemma PBDS_append_card:
  assumes "ProcessBulkDataStream json (BodyReader b) append_card st = (e, st')"
  shows "\<exists>new. card_calls (calls st') = card_calls (calls st) @ new \<and>
           (\<forall>x \<in> set new. snd x = None) \<and> vars st' = vars st @ map fst new"
  using PBDS_calls [OF assms]
  by (auto simp: plain_def after_calls_append_card append_card_def)

lemma DownloadBulkDataStream_response:
  assumes "downloadURI \<noteq> []"
    and "NewRequest_error lib downloadURI = None"
    and "httpClient c (download_request c cx downloadURI) = Inr resp"
    and "resp_StatusCode resp < 400"
  shows "DownloadBulkDataStream lib json c cx downloadURI cardCallback progressFn w st
           = (case ProcessBulkDataStream json (response_reader resp progressFn) cardCallback st of
                (e, st') \<Rightarrow>
                  (e, w\<lparr>requests := requests w @ [download_request c cx downloadURI]\<rparr>, st'))"
  using assms
  by (simp add: DownloadBulkDataStream_def NewRequestWithContext_def Header_Set_def Do_def
      download_request_def)

lemma pending_response_reader [simp]: "pending (response_reader resp pf) = resp_Body resp"
  by (simp add: response_reader_def pending_def split: option.splits)

lemma DownloadBulkDataStream_shape:
  "DownloadBulkDataStream lib json c cx downloadURI cardCallback progressFn w st = (e, w', st')
   \<Longrightarrow> st' = st \<or>
       (\<exists>resp. ProcessBulkDataStream json (response_reader resp progressFn) cardCallback st
                 = (e, st'))"
  by (auto simp: DownloadBulkDataStream_def split: if_splits sum.splits prod.splits)

lemma DownloadBulkData_delivered:
  assumes "DownloadBulkData lib json c cx downloadURI w = ((cards, e), w')"
  shows "\<exists>st'. DownloadBulkDataStream lib json c cx downloadURI append_card None w
                  \<lparr>vars = [], calls = []\<rparr> = (e, w', st') \<and>
               card_calls (calls st') = map (\<lambda>c. (c, None)) cards"
proof -
  let ?st0 = "\<lparr>vars = [], calls = []\<rparr> :: ('a list, 'a) caller"
  obtain e1 w1 st1 where
    d: "DownloadBulkDataStream lib json c cx downloadURI append_card None w ?st0 = (e1, w1, st1)"
    by (cases "DownloadBulkDataStream lib json c cx downloadURI append_card None w ?st0") auto
  with assms have eq: "cards = vars st1" "e = e1" "w' = w1"
    by (simp_all add: DownloadBulkData_def)
  from DownloadBulkDataStream_shape [OF d]
  have "card_calls (calls st1) = map (\<lambda>c. (c, None)) (vars st1)"
  proof
    assume "st1 = ?st0"
    then show ?thesis by simp
  next
    assume "\<exists>resp. ProcessBulkDataStream json (response_reader resp None) append_card ?st0
                 = (e1, st1)"
    then obtain b where
      "ProcessBulkDataStream json (BodyReader b) append_card ?st0 = (e1, st1)"
      by (auto simp: response_reader_def)
    from PBDS_append_card [OF this] obtain new where
      "card_calls (calls st1) = new" "\<forall>x \<in> set new. snd x = None" "vars st1 = map fst new"
      by auto
    then show ?thesis
      by (auto intro!: nth_equalityI simp: prod_eq_iff)
  qed
  with d eq show ?thesis by simp
qed


lemma record_texts_length: "record_texts unmarshal first es cards \<Longrightarrow> length cards = length es"
  by (induction es arbitrary: first cards) (auto split: list.splits)

text \<open>
  C5. Let the server answer a download with a status below 400 and a body that
  delivers, in any chunks and whether its last bytes come with \<^verbatim>\<open>nil\<close> or together
  with \<^verbatim>\<open>io.EOF\<close>, an array of \<open>N\<close> record texts (as in C1). Take any run of
  \<^verbatim>\<open>DownloadBulkDataStream\<close> over that answer, with any record callback and any progress
  callback, in which no invocation of the record callback returned an error, and let
  \<open>new\<close> be the invocations of the record callback in it. Then \<^verbatim>\<open>DownloadBulkData\<close>
  over the same answer returns nil and the records of \<open>new\<close>, in their order; they are
  the \<open>N\<close> records of the array; and both leave the world in the same state.
\<close>

theorem materialize_equals_stream:
  assumes "downloadURI \<noteq> []"
    and "NewRequest_error lib downloadURI = None"
    and "httpClient c (download_request c cx downloadURI) = Inr resp"
    and "resp_StatusCode resp < 400"
    and "delivered (resp_Body resp) = w0 @ ''['' @ elems_text True es @ wz @ '']'' @ trailer"
    and "spaces w0" and "spaces wz"
    and "record_texts (into_Card json) True es cards"
    and "DownloadBulkDataStream lib json c cx downloadURI cardCallback progressFn w st
           = (res, w', st')"
    and "card_calls (calls st') = card_calls (calls st) @ new"
    and "\<forall>x \<in> set new. snd x = None"
  shows "DownloadBulkData lib json c cx downloadURI w = ((map fst new, None), w') \<and>
         map fst new = cards \<and> length (map fst new) = length es \<and> res = None"
proof -
  let ?w1 = "w\<lparr>requests := requests w @ [download_request c cx downloadURI]\<rparr>"
  let ?st0 = "\<lparr>vars = [], calls = []\<rparr> :: ('a list, 'a) caller"
  have p: "delivered (pending (response_reader resp pf))
      = w0 @ ''['' @ elems_text True es @ wz @ '']'' @ trailer" for pf :: "'s ProgressFunc option"
    using assms(5) by simp
  from assms(9) DownloadBulkDataStream_response [OF assms(1-4), of json cardCallback progressFn w st]
  have run: "ProcessBulkDataStream json (response_reader resp progressFn) cardCallback st = (res, st')"
    and w': "w' = ?w1"
    by (auto split: prod.splits)
  from PBDS_array [OF p assms(6-8) run assms(10,11)]
  have r: "res = None" "map fst new = cards"
    by simp_all
  obtain e1 st1 where
    run1: "ProcessBulkDataStream json (BodyReader (resp_Body resp)) append_card ?st0 = (e1, st1)"
    by (cases "ProcessBulkDataStream json (BodyReader (resp_Body resp)) append_card ?st0") auto
  from PBDS_append_card [OF run1] obtain new1 where
    n: "card_calls (calls st1) = card_calls (calls ?st0) @ new1" "\<forall>x \<in> set new1. snd x = None"
      "vars st1 = map fst new1"
    by auto
  have p1: "delivered (pending (BodyReader (resp_Body resp) :: 'a list reader))
      = w0 @ ''['' @ elems_text True es @ wz @ '']'' @ trailer"
    using assms(5) by (simp add: pending_def)
  from PBDS_array [OF p1 assms(6-8) run1 n(1,2)]
  have r1: "e1 = None" "map fst new1 = cards"
    by simp_all
  have "DownloadBulkData lib json c cx downloadURI w = ((vars st1, e1), ?w1)"
    using DownloadBulkDataStream_response [OF assms(1-4), of json append_card None w ?st0] run1
    by (simp add: DownloadBulkData_def response_reader_def)
  with r r1 n(3) w' record_texts_length [OF assms(8)] show ?thesis
    by simp
qed

text \<open>
  The two records of the demo server, their last bytes read together with
  \<^verbatim>\<open>io.EOF\<close>, streamed and materialized.
\<close>

theorem materialize_equals_stream_witness:
  \<open>DownloadBulkDataStream demo_lib demo_json (demo_client 200 two_cards_eof) None
       ''https://data.scryfall.io/all.json'' demo_callback None demo_world demo_caller
     = (None,
        demo_world\<lparr>requests := [download_request (demo_client 200 two_cards_eof) None
                                  ''https://data.scryfall.io/all.json'']\<rparr>,
        \<lparr>vars = (), calls = [CardCall ''{"id":"a"}'' None, CardCall ''{"id":"b"}'' None]\<rparr>) \<and>
   DownloadBulkData demo_lib demo_json (demo_client 200 two_cards_eof) None
       ''https://data.scryfall.io/all.json'' demo_world
     = (([''{"id":"a"}'', ''{"id":"b"}''], None),
        demo_world\<lparr>requests := [download_request (demo_client 200 two_cards_eof) None
                                  ''https://data.scryfall.io/all.json'']\<rparr>)\<close>
proof -
  let ?c = "demo_client 200 two_cards_eof"
  let ?resp = "\<lparr>resp_StatusCode = 200, resp_ContentLength = int (bytes_read two_cards_eof),
                 resp_Body = two_cards_eof\<rparr>"
  have run: \<open>DownloadBulkDataStream demo_lib demo_json ?c None
       ''https://data.scryfall.io/all.json'' demo_callback None demo_world demo_caller
     = (None,
        demo_world\<lparr>requests := [download_request ?c None ''https://data.scryfall.io/all.json'']\<rparr>,
        \<lparr>vars = (), calls = [CardCall ''{"id":"a"}'' None, CardCall ''{"id":"b"}'' None]\<rparr>)\<close>
  proof -
    have \<open>ProcessBulkDataStream demo_json (BodyReader two_cards_eof) demo_callback demo_caller
       = (None, \<lparr>vars = (), calls = [CardCall ''{"id":"a"}'' None, CardCall ''{"id":"b"}'' None]\<rparr>)\<close>
      by (simp add: run_defs demo_json_def demo_into_Card_def demo_callback_def demo_caller_def
          two_cards_eof_def Let_def)
    then show ?thesis
      using DownloadBulkDataStream_response [of "''https://data.scryfall.io/all.json''" demo_lib
          ?c None ?resp demo_json demo_callback None demo_world demo_caller]
      by (simp add: response_reader_def demo_lib_def demo_client_def demo_world_def)
  qed
  have recs: \<open>record_texts (into_Card demo_json) True two_cards_elems [''{"id":"a"}'', ''{"id":"b"}'']\<close>
    by (simp add: two_cards_elems_def text_defs run_defs demo_json_def demo_into_Card_def)
  have tx: \<open>delivered (resp_Body ?resp)
      = [] @ ''['' @ elems_text True two_cards_elems @ [] @ '']'' @ []\<close>
    by (simp add: two_cards_eof_def two_cards_elems_def separator_def)
  have \<open>DownloadBulkData demo_lib demo_json ?c None ''https://data.scryfall.io/all.json'' demo_world
     = ((map fst [(''{"id":"a"}'', None :: error option), (''{"id":"b"}'', None)], None),
        demo_world\<lparr>requests := [download_request ?c None ''https://data.scryfall.io/all.json'']\<rparr>)\<close>
    using materialize_equals_stream [OF _ _ _ _ tx _ _ recs run,
        of \<open>[(''{"id":"a"}'', None), (''{"id":"b"}'', None)]\<close>]
    by (simp add: spaces_def demo_caller_def demo_lib_def demo_client_def)
  with run show ?thesis
    by simp
qed

text \<open>
  C10. \<^verbatim>\<open>DownloadBulkData\<close> returns the records accumulated so far together with the
  error. First, for a body that holds \<open>k\<close> record texts and then an element whose
  decoding fails with \<open>e\<close> (as in C4): the \<open>k\<close> records come back with \<open>e\<close> wrapped.
  Second, for every failure, of whatever origin (a malformed element, a read of the
  body that fails, a request that fails): when the streaming run with the accumulating
  callback returns an error \<open>e'\<close>, \<^verbatim>\<open>DownloadBulkData\<close> returns \<open>e'\<close> with the records
  that callback was invoked with in the run, in order.
\<close>

theorem partial_records_returned_with_error:
  assumes "downloadURI \<noteq> []"
    and "NewRequest_error lib downloadURI = None"
    and "httpClient c (download_request c cx downloadURI) = Inr resp"
    and "resp_StatusCode resp < 400"
    and "resp_Body resp = map (\<lambda>p. (p, None)) chunks @ rest"
    and "concat chunks
           = w0 @ ''['' @ elems_text True es @ a @ separator (es = []) @ b @ x @ trailer"
    and "spaces w0" and "spaces a" and "spaces b"
    and "record_texts (into_Card json) True es cards"
    and "rejected (into_Card json) (es = []) b x e"
    and "es = [] \<longrightarrow> x \<noteq> [] \<and> \<not> isSpace (hd x) \<and> hd x \<noteq> CHR '']''"
  shows "DownloadBulkData lib json c cx downloadURI w
           = ((cards,
               Some (WrapError (if es = [] \<and> hd x = CHR ''}'' then ''decode closing bracket: ''
                                else ''decode card object: '') e)),
              w\<lparr>requests := requests w @ [download_request c cx downloadURI]\<rparr>) \<and>
         (\<forall>c' cx' uri' w0 e' w'' st'.
            DownloadBulkDataStream lib json c' cx' uri' append_card None w0
                \<lparr>vars = [], calls = []\<rparr> = (Some e', w'', st') \<longrightarrow>
            DownloadBulkData lib json c' cx' uri' w0
              = ((map fst (card_calls (calls st')), Some e'), w''))"
proof -
  let ?w1 = "w\<lparr>requests := requests w @ [download_request c cx downloadURI]\<rparr>"
  let ?st0 = "\<lparr>vars = [], calls = []\<rparr> :: ('a list, 'a) caller"
  obtain e1 st1 where
    run1: "ProcessBulkDataStream json (BodyReader (resp_Body resp)) append_card ?st0 = (e1, st1)"
    by (cases "ProcessBulkDataStream json (BodyReader (resp_Body resp)) append_card ?st0") auto
  from PBDS_append_card [OF run1] obtain new1 where
    n: "card_calls (calls st1) = card_calls (calls ?st0) @ new1" "\<forall>x \<in> set new1. snd x = None"
      "vars st1 = map fst new1"
    by auto
  have p1: "pending (BodyReader (resp_Body resp)) = map (\<lambda>p. (p, None)) chunks @ rest"
    using assms(5) by (simp add: pending_def)
  from PBDS_rejected [OF p1 assms(6-12) run1 n(1,2)]
  have r1: "e1 = Some (WrapError (if es = [] \<and> hd x = CHR ''}'' then ''decode closing bracket: ''
                                else ''decode card object: '') e)" "map fst new1 = cards"
    by simp_all
  have "DownloadBulkData lib json c cx downloadURI w = ((vars st1, e1), ?w1)"
    using DownloadBulkDataStream_response [OF assms(1-4), of json append_card None w ?st0] run1
    by (simp add: DownloadBulkData_def response_reader_def)
  with r1 n(3) have first: "DownloadBulkData lib json c cx downloadURI w
           = ((cards,
               Some (WrapError (if es = [] \<and> hd x = CHR ''}'' then ''decode closing bracket: ''
                                else ''decode card object: '') e)), ?w1)"
    by simp
  have "DownloadBulkData lib json c' cx' uri' w0
              = ((map fst (card_calls (calls st')), e'), w'')"
    if "DownloadBulkDataStream lib json c' cx' uri' append_card None w0 ?st0 = (e', w'', st')"
    for c' cx' uri' w0 e' w'' st'
  proof -
    obtain cards' e2 w2 where d: "DownloadBulkData lib json c' cx' uri' w0 = ((cards', e2), w2)"
      by (metis surj_pair)
    from DownloadBulkData_delivered [OF d] that show ?thesis
      using d by (auto simp: comp_def)
  qed
  with first show ?thesis
    by blast
qed

text \<open>One record, then the broken element: the record comes back with the error.\<close>

theorem partial_records_returned_with_error_witness:
  \<open>DownloadBulkData demo_lib demo_json (demo_client 200 broken_body) None
       ''https://data.scryfall.io/all.json'' demo_world
     = (([''{"id":"a"}''],
         Some (WrapError ''decode card object: ''
                (SyntaxError (Some CHR '']'') ''looking for beginning of value''))),
        demo_world\<lparr>requests := [download_request (demo_client 200 broken_body) None
                                  ''https://data.scryfall.io/all.json'']\<rparr>) \<and>
   DownloadBulkDataStream demo_lib demo_json (demo_client 200 broken_body) None
       ''https://data.scryfall.io/all.json'' append_card None demo_world \<lparr>vars = [], calls = []\<rparr>
     = (Some (WrapError ''decode card object: ''
                (SyntaxError (Some CHR '']'') ''looking for beginning of value'')),
        demo_world\<lparr>requests := [download_request (demo_client 200 broken_body) None
                                  ''https://data.scryfall.io/all.json'']\<rparr>,
        \<lparr>vars = [''{"id":"a"}''], calls = [CardCall ''{"id":"a"}'' None]\<rparr>)\<close>
proof -
  let ?c = "demo_client 200 broken_body"
  let ?resp = "\<lparr>resp_StatusCode = 200, resp_ContentLength = int (bytes_read broken_body),
                 resp_Body = broken_body\<rparr>"
  have run: \<open>DownloadBulkDataStream demo_lib demo_json ?c None
       ''https://data.scryfall.io/all.json'' append_card None demo_world \<lparr>vars = [], calls = []\<rparr>
     = (Some (WrapError ''decode card object: ''
                (SyntaxError (Some CHR '']'') ''looking for beginning of value'')),
        demo_world\<lparr>requests := [download_request ?c None ''https://data.scryfall.io/all.json'']\<rparr>,
        \<lparr>vars = [''{"id":"a"}''], calls = [CardCall ''{"id":"a"}'' None]\<rparr>)\<close>
  proof -
    have \<open>ProcessBulkDataStream demo_json (BodyReader broken_body) append_card
         \<lparr>vars = [], calls = []\<rparr>
       = (Some (WrapError ''decode card object: ''
                  (SyntaxError (Some CHR '']'') ''looking for beginning of value'')),
          \<lparr>vars = [''{"id":"a"}''], calls = [CardCall ''{"id":"a"}'' None]\<rparr>)\<close>
      by (simp add: run_defs demo_json_def demo_into_Card_def append_card_def
          broken_body_def Let_def)
    then show ?thesis
      using DownloadBulkDataStream_response [of "''https://data.scryfall.io/all.json''" demo_lib
          ?c None ?resp demo_json append_card None demo_world "\<lparr>vars = [], calls = []\<rparr>"]
      by (simp add: response_reader_def demo_lib_def demo_client_def demo_world_def)
  qed
  have recs: \<open>record_texts (into_Card demo_json) True [([], [], ''{"id":"a"}'')] [''{"id":"a"}'']\<close>
    by (simp add: text_defs run_defs demo_json_def demo_into_Card_def)
  have rej: \<open>rejected (into_Card demo_json) ([([], [], ''{"id":"a"}'')] = []) [] ''{"id":]''
     (SyntaxError (Some CHR '']'') ''looking for beginning of value'')\<close>
    by (simp add: rejected_def run_defs)
  have b: "resp_Body ?resp = map (\<lambda>p. (p, None)) (map fst broken_body) @ []"
    by (simp add: broken_body_def)
  have tx: \<open>concat (map fst broken_body)
      = [] @ ''['' @ elems_text True [([], [], ''{"id":"a"}'')] @ []
        @ separator ([([], [], ''{"id":"a"}'')] = []) @ [] @ ''{"id":]'' @ ''}]''\<close>
    by (simp add: broken_body_def separator_def)
  have \<open>DownloadBulkData demo_lib demo_json ?c None ''https://data.scryfall.io/all.json'' demo_world
     = (([''{"id":"a"}''],
         Some (WrapError ''decode card object: ''
                (SyntaxError (Some CHR '']'') ''looking for beginning of value''))),
        demo_world\<lparr>requests := [download_request ?c None ''https://data.scryfall.io/all.json'']\<rparr>)\<close>
    using partial_records_returned_with_error [OF _ _ _ _ b tx _ _ _ recs rej,
        of "''https://data.scryfall.io/all.json''" demo_lib ?c None demo_world,
        THEN conjunct1]
    by (simp add: spaces_def demo_lib_def demo_client_def demo_world_def)
  with run show ?thesis
    by simp
qed

subsection \<open>A stream that does not begin with an array\<close>

lemma Token_top:
  assumes "peek (NewDecoder rd) st = (Inr c, dec1, st1)"
    and "tokenState dec1 = tokenTopValue" and "dec_err dec1 = None" and "c \<noteq> CHR ''[''"
  shows "Token u (NewDecoder rd) st =
     (if c = CHR ''{'' then
        (Inr (Delim CHR ''{''),
         dec1\<lparr>buf := tl (buf dec1), tokenStack := tokenTopValue # tokenStack dec1,
              tokenState := tokenObjectStart\<rparr>, st1)
      else if c \<in> set '']}:,'' then
        (Inl (SyntaxError (Some c) ''looking for beginning of value''), dec1, st1)
      else
        (case readValue dec1 st1 of
           ((Some e, n), dec2, st2) \<Rightarrow> (Inl e, dec2, st2)
         | ((None, n), dec2, st2) \<Rightarrow>
             (case u (take n (buf dec2)) of
                Some e \<Rightarrow> (Inl e, tokenValueEnd (dec2\<lparr>buf := drop n (buf dec2)\<rparr>), st2)
              | None \<Rightarrow>
                  (Inr TokenValue, tokenValueEnd (dec2\<lparr>buf := drop n (buf dec2)\<rparr>), st2))))"
  apply (subst Token.simps)
  apply (simp only: assms(1) prod.case sum.case)
  apply (simp add: assms(2-4) tokenValueAllowed_def tokenError_def Decode_def
      tokenPrepareForDecode_def discard_value_def
      split: prod.splits option.splits)
  done


lemma PBDS_not_open:
  assumes "Token (into_any json) (NewDecoder rd) st = (r, dec1, st1)"
    and "r \<noteq> Inr (Delim CHR ''['')"
  shows "ProcessBulkDataStream json rd cb st =
           (Some (case r of Inl e \<Rightarrow> WrapError ''decode opening bracket: '' e
                  | Inr t \<Rightarrow> ErrorString ''expected '[' at start of bulk data''), st1) \<and>
         card_calls (calls st1) = card_calls (calls st) \<and> (plain rd \<longrightarrow> st1 = st)"
  using assms Token_quiet [OF assms(1)]
  by (auto simp: ProcessBulkDataStream_def quiet_def NewDecoder_def split: sum.splits)

text \<open>
  C2. Let the bytes the reader delivers up to its first error be whitespace and then
  a text \<open>x\<close> that does not begin with \<^verbatim>\<open>[\<close> (or nothing: \<open>x\<close> is empty). Then every
  run of \<^verbatim>\<open>ProcessBulkDataStream\<close> invokes the record callback zero times (on the
  stream itself, it leaves the caller's state as it was) and fails, with one of two
  errors: "expected '[' at start of bulk data" when the first token is there and is
  not \<^verbatim>\<open>[\<close>, or the error of the tokenizer, wrapped as "decode opening bracket: ...",
  when there is no first token. In particular:

    \<^item> there is nothing but whitespace: the first error of the reader, wrapped
      (\<^verbatim>\<open>io.EOF\<close> for a stream that is exhausted);
    \<^item> \<open>x\<close> begins with an opening brace (an object): "expected '['";
    \<^item> \<open>x\<close> begins with one of \<^verbatim>\<open>] } : ,\<close>: the syntax error for that byte, wrapped;
    \<^item> \<open>x\<close> begins with a number, string or literal of which the scanner sees the end
      after \<open>n\<close> bytes, at the byte that follows: "expected '['", unless
      \<^verbatim>\<open>json.Unmarshal\<close> rejects the value (a number out of range), whose error is then
      wrapped;
    \<^item> the scanner rejects \<open>x\<close> with \<open>e\<close>: \<open>e\<close>, wrapped;
    \<^item> the stream ends with \<open>x\<close>: as for a value when \<open>x\<close> is a complete number or
      literal, and \<^verbatim>\<open>io.ErrUnexpectedEOF\<close>, wrapped, when the value is cut short.
\<close>

theorem first_token_not_array:
  assumes "delivered (pending rd) = w0 @ x" and "spaces w0"
    and "x = [] \<or> \<not> isSpace (hd x) \<and> hd x \<noteq> CHR ''[''"
    and "ProcessBulkDataStream json rd cardCallback st = (res, st')"
  shows "card_calls (calls st') = card_calls (calls st) \<and> (plain rd \<longrightarrow> st' = st) \<and>
     (res = Some (ErrorString ''expected '[' at start of bulk data'') \<or>
      (\<exists>e. res = Some (WrapError ''decode opening bracket: '' e))) \<and>
     (x = [] \<longrightarrow> res = Some (WrapError ''decode opening bracket: '' (first_error (pending rd)))) \<and>
     (x \<noteq> [] \<and> hd x = CHR ''{'' \<longrightarrow>
        res = Some (ErrorString ''expected '[' at start of bulk data'')) \<and>
     (x \<noteq> [] \<and> hd x \<in> set '']}:,'' \<longrightarrow>
        res = Some (WrapError ''decode opening bracket: ''
                      (SyntaxError (Some (hd x)) ''looking for beginning of value''))) \<and>
     (x \<noteq> [] \<and> hd x \<notin> set ''{]}:,'' \<and> scan_bytes scanner_reset 0 x = ScanDone n \<longrightarrow>
        res = Some (case into_any json (take n x) of
                      None \<Rightarrow> ErrorString ''expected '[' at start of bulk data''
                    | Some e \<Rightarrow> WrapError ''decode opening bracket: '' e)) \<and>
     (x \<noteq> [] \<and> hd x \<notin> set ''{]}:,'' \<and> scan_bytes scanner_reset 0 x = ScanFail (Some e) \<longrightarrow>
        res = Some (WrapError ''decode opening bracket: '' e)) \<and>
     (x \<noteq> [] \<and> hd x \<notin> set ''{]}:,'' \<and> ends (pending rd) \<and>
      scan_bytes scanner_reset 0 x = ScanMore sc n \<longrightarrow>
        res = Some (if fst (scanner_step sc CHR '' '') = scanEnd
                    then (case into_any json x of
                            None \<Rightarrow> ErrorString ''expected '[' at start of bulk data''
                          | Some e \<Rightarrow> WrapError ''decode opening bracket: '' e)
                    else WrapError ''decode opening bracket: '' ErrUnexpectedEOF))"
proof (cases x)
  case Nil
  have "spaces (buf (NewDecoder rd) @ delivered (pending (dec_r (NewDecoder rd))))"
    using assms(1,2) Nil by (simp add: NewDecoder_def)
  from peek_loop_nothing [OF refl this, of st]
  obtain dec1 st1 where pk: "peek (NewDecoder rd) st = (Inl (first_error (pending rd)), dec1, st1)"
    by (auto simp: peek_def NewDecoder_def)
  have t: "Token (into_any json) (NewDecoder rd) st = (Inl (first_error (pending rd)), dec1, st1)"
    apply (subst Token.simps)
    apply (simp only: pk prod.case sum.case)
    done
  from PBDS_not_open [OF t, of cardCallback] assms(4) Nil show ?thesis
    by simp
next
  case (Cons c cs)
  with assms(3) have c: "\<not> isSpace c" "c \<noteq> CHR ''[''"
    by simp_all
  let ?ex = "ends (pending rd)"
  have a0: "ahead ?ex (dec_r (NewDecoder rd)) (buf (NewDecoder rd)) (w0 @ x)"
    using ahead_all [of rd] assms(1) by (simp add: NewDecoder_def)
  have "dropWhile isSpace (w0 @ x) = c # cs"
    using assms(2) Cons c by (simp add: dropWhile_spaces)
  from peek_ahead [OF a0 this, of st] obtain rd1 b1 st1 where
    pk: "peek (NewDecoder rd) st = (Inr c, (NewDecoder rd)\<lparr>dec_r := rd1, buf := c # b1\<rparr>, st1)"
    and a1: "ahead ?ex rd1 (c # b1) (c # cs)"
    by blast
  let ?dec1 = "(NewDecoder rd)\<lparr>dec_r := rd1, buf := c # b1\<rparr>"
  have ts: "tokenState ?dec1 = tokenTopValue" "dec_err ?dec1 = None"
    by (simp_all add: NewDecoder_def)
  note tk = Token_top [OF pk ts c(2), of "into_any json"]
  obtain r dec2 st2 where t: "Token (into_any json) (NewDecoder rd) st = (r, dec2, st2)"
    by (cases "Token (into_any json) (NewDecoder rd) st") auto
  with tk have ne: "r \<noteq> Inr (Delim CHR ''['')"
    by (auto split: if_splits prod.splits option.splits)
  note run = PBDS_not_open [OF t ne, of cardCallback]
  with assms(4) have res: "res = Some (case r of Inl e \<Rightarrow> WrapError ''decode opening bracket: '' e
                  | Inr t \<Rightarrow> ErrorString ''expected '[' at start of bulk data'')"
    and calls: "card_calls (calls st') = card_calls (calls st)" "plain rd \<longrightarrow> st' = st"
    by simp_all
  have general: "res = Some (ErrorString ''expected '[' at start of bulk data'') \<or>
      (\<exists>e. res = Some (WrapError ''decode opening bracket: '' e))"
    using res by (cases r) simp_all
  have brace: "res = Some (ErrorString ''expected '[' at start of bulk data'')" if "c = CHR ''{''"
    using tk t that res by auto
  have delim: "res = Some (WrapError ''decode opening bracket: ''
                      (SyntaxError (Some c) ''looking for beginning of value''))"
    if "c \<in> set '']}:,''"
    using tk t that res by auto
  have a1': "ahead ?ex (dec_r ?dec1) (buf ?dec1) x"
    using a1 Cons by simp
  have sfail: "res = Some (WrapError ''decode opening bracket: '' e)"
    if nd: "c \<notin> set ''{]}:,''" and sc: "scan_bytes scanner_reset 0 x = ScanFail (Some e)"
  proof -
    from readValue_ahead_fail [OF a1' sc, of st1] obtain rd2 b2 st2' where
      rv: "readValue ?dec1 st1
           = ((Some e, 0), ?dec1\<lparr>dec_r := rd2, buf := b2, dec_err := Some e\<rparr>, st2')"
      by auto
    from tk t nd res rv show ?thesis
      by auto
  qed
  have sdone: "res = Some (case into_any json (take n x) of
                      None \<Rightarrow> ErrorString ''expected '[' at start of bulk data''
                    | Some e \<Rightarrow> WrapError ''decode opening bracket: '' e)"
    if nd: "c \<notin> set ''{]}:,''" and sc: "scan_bytes scanner_reset 0 x = ScanDone n"
  proof -
    from readValue_ahead [OF a1' sc, of st1] obtain rd2 b2 st2' where
      rv: "readValue ?dec1 st1 = ((None, n), ?dec1\<lparr>dec_r := rd2, buf := b2\<rparr>, st2')"
      and a2: "ahead ?ex rd2 b2 x" and len: "n \<le> length b2"
      by auto
    from a2 obtain tail where "b2 @ delivered (pending rd2) = x @ tail"
      by (auto simp: ahead_def)
    with len have "take n b2 = take n (x @ tail)"
      by (metis append_eq_conv_conj take_append diff_is_0_eq' take_0 append_Nil2)
    moreover from scan_bytes_count [where sc = scanner_reset and n = 0 and a = x] sc
    have "n \<le> length x"
      by simp
    ultimately have tk2: "take n b2 = take n x"
      by simp
    from tk t nd res rv show ?thesis
      by (auto simp: tk2 split: option.splits)
  qed
  have seof: "res = Some (if fst (scanner_step sc CHR '' '') = scanEnd
                    then (case into_any json x of
                            None \<Rightarrow> ErrorString ''expected '[' at start of bulk data''
                          | Some e \<Rightarrow> WrapError ''decode opening bracket: '' e)
                    else WrapError ''decode opening bracket: '' ErrUnexpectedEOF)"
    if nd: "c \<notin> set ''{]}:,''" and en: "ends (pending rd)"
      and sc: "scan_bytes scanner_reset 0 x = ScanMore sc n"
  proof -
    from a1' en have a1'': "ahead True (dec_r ?dec1) (buf ?dec1) x"
      by simp
    from scan_bytes_count [where sc = scanner_reset and n = 0 and a = x] sc
    have n: "n = length x"
      by simp
    have ns: "nonSpace x"
      using Cons c(1) by (auto simp: nonSpace_def)
    from readValue_ended [OF a1'' sc, of st1] obtain rd2 st2' where
      rv: "readValue ?dec1 st1 =
       (if fst (scanner_step sc CHR '' '') = scanEnd
        then ((None, n), ?dec1\<lparr>dec_r := rd2, buf := x\<rparr>, st2')
        else ((Some (if nonSpace x then ErrUnexpectedEOF else EOF), 0),
              ?dec1\<lparr>dec_r := rd2, buf := x,
                  dec_err := Some (if nonSpace x then ErrUnexpectedEOF else EOF)\<rparr>, st2'))"
      by blast
    show ?thesis
    proof (cases "fst (scanner_step sc CHR '' '') = scanEnd")
      case True
      with tk t nd res rv n show ?thesis
        by (auto split: option.splits)
    next
      case False
      with tk t nd res rv ns show ?thesis
        by auto
    qed
  qed
  from calls general brace delim sfail sdone seof Cons show ?thesis
    by auto
qed

text \<open>
  An object and a number, each read together with \<^verbatim>\<open>io.EOF\<close>, and an empty stream:
  the first two fail with "expected '['", the third with the wrapped \<^verbatim>\<open>io.EOF\<close>.
\<close>

theorem first_token_not_array_witness:
  \<open>ProcessBulkDataStream demo_json (BodyReader [(''{}'', Some EOF)]) demo_callback demo_caller
     = (Some (ErrorString ''expected '[' at start of bulk data''), demo_caller) \<and>
   ProcessBulkDataStream demo_json (BodyReader [(''12'', Some EOF)]) demo_callback demo_caller
     = (Some (ErrorString ''expected '[' at start of bulk data''), demo_caller) \<and>
   scan_bytes scanner_reset 0 ''12''
     = ScanMore \<lparr>step = State1, endTop = False, parseState = [], err = None\<rparr> 2 \<and>
   fst (scanner_step \<lparr>step = State1, endTop = False, parseState = [], err = None\<rparr> CHR '' '')
     = scanEnd \<and>
   into_any demo_json ''12'' = None \<and>
   ProcessBulkDataStream demo_json (BodyReader []) demo_callback demo_caller
     = (Some (WrapError ''decode opening bracket: '' EOF), demo_caller) \<and>
   first_error [] = EOF\<close>
proof -
  let ?sc = "\<lparr>step = State1, endTop = False, parseState = [], err = None\<rparr>"
  have run1: \<open>ProcessBulkDataStream demo_json (BodyReader [(''{}'', Some EOF)]) demo_callback
       demo_caller
     = (Some (ErrorString ''expected '[' at start of bulk data''), demo_caller)\<close>
    by (simp add: run_defs demo_json_def demo_caller_def Let_def)
  have run2: \<open>ProcessBulkDataStream demo_json (BodyReader [(''12'', Some EOF)])
       demo_callback demo_caller
     = (Some (ErrorString ''expected '[' at start of bulk data''), demo_caller)\<close>
    by (simp add: run_defs demo_json_def demo_caller_def Let_def)
  have run3: \<open>ProcessBulkDataStream demo_json (BodyReader []) demo_callback demo_caller
     = (Some (WrapError ''decode opening bracket: '' EOF), demo_caller)\<close>
    by (simp add: run_defs demo_json_def demo_caller_def Let_def)
  have sc: \<open>scan_bytes scanner_reset 0 ''12'' = ScanMore ?sc 2\<close>
    by (simp add: run_defs)
  have se: \<open>fst (scanner_step ?sc CHR '' '') = scanEnd\<close>
    by (simp add: run_defs)
  have u: \<open>into_any demo_json ''12'' = None\<close>
    by (simp add: demo_json_def)
  have sp: "spaces []"
    by (simp add: spaces_def)
  have tx1: \<open>delivered (pending (BodyReader [(''{}'', Some EOF)] :: unit reader)) = [] @ ''{}''\<close>
    by (simp add: pending_def)
  have nb1: \<open>''{}'' = [] \<or> \<not> isSpace (hd ''{}'') \<and> hd ''{}'' \<noteq> CHR ''[''\<close>
    by (simp add: isSpace_def)
  have r1: \<open>Some (ErrorString ''expected '[' at start of bulk data'')
      = Some (ErrorString ''expected '[' at start of bulk data'')\<close>
    using first_token_not_array [OF tx1 sp nb1 run1,
        THEN conjunct2, THEN conjunct2, THEN conjunct2, THEN conjunct2, THEN conjunct1]
    by simp
  have tx2: \<open>delivered (pending (BodyReader [(''12'', Some EOF)] :: unit reader)) = [] @ ''12''\<close>
    by (simp add: pending_def)
  have nb2: \<open>''12'' = [] \<or> \<not> isSpace (hd ''12'') \<and> hd ''12'' \<noteq> CHR ''[''\<close>
    by (simp add: isSpace_def)
  have d2: \<open>''12'' \<noteq> [] \<and> hd ''12'' \<notin> set ''{]}:,'' \<and>
      ends (pending (BodyReader [(''12'', Some EOF)] :: unit reader)) \<and>
      scan_bytes scanner_reset 0 ''12'' = ScanMore ?sc 2\<close>
    using sc by (simp add: pending_def)
  have r2: \<open>Some (ErrorString ''expected '[' at start of bulk data'')
      = Some (if fst (scanner_step ?sc CHR '' '') = scanEnd
              then (case into_any demo_json ''12'' of
                      None \<Rightarrow> ErrorString ''expected '[' at start of bulk data''
                    | Some e \<Rightarrow> WrapError ''decode opening bracket: '' e)
              else WrapError ''decode opening bracket: '' ErrUnexpectedEOF)\<close>
    using first_token_not_array [OF tx2 sp nb2 run2, where sc = ?sc and n = 2,
        THEN conjunct2, THEN conjunct2, THEN conjunct2, THEN conjunct2, THEN conjunct2,
        THEN conjunct2, THEN conjunct2, THEN conjunct2, rule_format, OF d2] .
  have tx3: \<open>delivered (pending (BodyReader [] :: unit reader)) = [] @ ([] :: string)\<close>
    by (simp add: pending_def)
  have nb3: \<open>([] :: string) = [] \<or> \<not> isSpace (hd []) \<and> hd [] \<noteq> CHR ''[''\<close>
    by simp
  have r3: \<open>Some (WrapError ''decode opening bracket: '' EOF)
      = Some (WrapError ''decode opening bracket: ''
                (first_error (pending (BodyReader [] :: unit reader))))\<close>
    using first_token_not_array [OF tx3 sp nb3 run3,
        THEN conjunct2, THEN conjunct2, THEN conjunct2, THEN conjunct1, rule_format, OF refl] .
  have fe: "first_error [] = EOF"
    by simp
  from r1 r2 r3 show ?thesis
    by (intro conjI run1 run2 run3 sc se u fe)
qed

text \<open>
  The claim as stated fails: on an exhausted stream, and on one whose first byte
  cannot begin a value, the error is not "expected '[' at start of bulk data" but the
  wrapped error of the tokenizer.
\<close>

theorem first_token_error_is_wrapped:
  \<open>ProcessBulkDataStream demo_json (BodyReader []) demo_callback demo_caller
     = (Some (WrapError ''decode opening bracket: '' EOF), demo_caller) \<and>
   ProcessBulkDataStream demo_json (BodyReader [(''x'', None)]) demo_callback demo_caller
     = (Some (WrapError ''decode opening bracket: ''
               (SyntaxError (Some CHR ''x'') ''looking for beginning of value'')), demo_caller) \<and>
   WrapError ''decode opening bracket: '' EOF
     \<noteq> ErrorString ''expected '[' at start of bulk data''\<close>
  by (simp add: run_defs demo_json_def demo_caller_def Let_def)

end
